theory Spec2Isabelle
  imports Complex_Main
begin

section \<open>JavaScript strings\<close>

text \<open>
  A JavaScript string is modelled as a \<^typ>\<open>string\<close>: each \<^typ>\<open>char\<close> stands for
  one code unit in the range 0..255. \<open>String.prototype.trim\<close> removes the white space and
  line terminator code units at both ends; in this range they are TAB, LF, VT, FF, CR,
  SPACE and NBSP (0xA0).
\<close>

definition js_whitespace :: "char \<Rightarrow> bool" where
  "js_whitespace c =
     (c = CHR 0x09 \<or> c = CHR 0x0A \<or> c = CHR 0x0B \<or> c = CHR 0x0C \<or> c = CHR 0x0D \<or>
      c = CHR 0x20 \<or> c = CHR 0xA0)"

definition trim :: "string \<Rightarrow> string" where
  "trim s = rev (dropWhile js_whitespace (rev (dropWhile js_whitespace s)))"

text \<open>
  \<open>s.split(sep)\<close> for a one-character separator: the pieces between the separators,
  always at least one piece (the empty string gives one empty piece).
\<close>

fun split_acc :: "char \<Rightarrow> string \<Rightarrow> string \<Rightarrow> string list" where
  "split_acc sep acc [] = [rev acc]"
| "split_acc sep acc (c # cs) =
     (if c = sep then rev acc # split_acc sep [] cs else split_acc sep (c # acc) cs)"

definition split :: "char \<Rightarrow> string \<Rightarrow> string list" where
  "split sep s = split_acc sep [] s"

section \<open>Permission builder (permission.service)\<close>

text \<open>
  \<open>PermissionConfig\<close>: every field is optional in the source (\<open>const config = {}\<close>), so
  an absent field is \<^const>\<open>None\<close>.
\<close>

record PermissionConfig =
  allowedTools :: "string option"
  noIndexing :: "bool option"
  addDirs :: "string list option"

text \<open>
  A string or \<open>undefined\<close> used as a condition (\<open>if (mode)\<close>, \<open>if (workspace)\<close>) is
  true when it is defined and not empty: the \<open>case\<close> and the test \<open>\<noteq> []\<close> below.
\<close>

definition dquote :: string where
  "dquote = [CHR 0x22]"

definition buildAllowedToolsArg :: "string \<Rightarrow> string option \<Rightarrow> string" where
  "buildAllowedToolsArg mode workspace =
     (if mode = ''pure'' then dquote @ dquote
      else if mode = ''simple'' then ''WebSearch,WebFetch''
      else if mode = ''readonly'' then ''Read,LS,Glob,Grep''
      else if mode = ''projectwrite'' then
        (case workspace of
           Some w \<Rightarrow>
             (if w \<noteq> [] then
                dquote @ ''Edit('' @ w @ ''/**)'' @ dquote @ '','' @ dquote @ ''Read'' @ dquote
              else ''Read,Write,Edit,LS,Glob,Grep'')
         | None \<Rightarrow> ''Read,Write,Edit,LS,Glob,Grep'')
      else [])"

definition buildPermissionConfig ::
  "string option \<Rightarrow> string option \<Rightarrow> string option \<Rightarrow> PermissionConfig" where
  "buildPermissionConfig mode workspace externaldirs =
     (let config = \<lparr> allowedTools = None, noIndexing = None, addDirs = None \<rparr>;
          config =
            (case mode of
               Some m \<Rightarrow>
                 (if m \<noteq> [] then
                    (let config = config\<lparr>allowedTools := Some (buildAllowedToolsArg m workspace)\<rparr>
                     in if m = ''pure'' \<or> m = ''simple''
                        then config\<lparr>noIndexing := Some True\<rparr> else config)
                  else config)
             | None \<Rightarrow> config)
      in (case externaldirs of
            Some e \<Rightarrow>
              (if e \<noteq> [] then
                 config\<lparr>addDirs :=
                   Some (filter (\<lambda>dir. length dir > 0) (map trim (split CHR '','' e)))\<rparr>
               else config)
          | None \<Rightarrow> config))"

definition buildPermissionArgs :: "PermissionConfig \<Rightarrow> string list" where
  "buildPermissionArgs config =
     (case allowedTools config of Some a \<Rightarrow> [''--allowedTools'', a] | None \<Rightarrow> [])
     @ (if noIndexing config = Some True then [''--no-indexing''] else [])
     @ (case addDirs config of
          Some ds \<Rightarrow> concat (map (\<lambda>dir. [''--add-dir'', dir]) ds)
        | None \<Rightarrow> [])"

section \<open>JSON values and JSON.parse\<close>

text \<open>
  The values \<open>JSON.parse\<close> returns. \<^term>\<open>JNull\<close> is JavaScript's \<open>null\<close>. A number is kept
  as the exact value of its literal (IEEE rounding is outside the model). An object keeps
  its members in the order of the text; reading a property takes the last member of that
  name, as the parsed object does.
\<close>

datatype json =
    JNull
  | JBool bool
  | JNumber rat
  | JString string
  | JArray "json list"
  | JObject "(string \<times> json) list"

text \<open>
  \<open>JSON.parse\<close> belongs to the JavaScript host, not to the repository: the transcoder below
  takes it as a parameter \<open>parse\<close> (\<^const>\<open>None\<close> when it throws). The reference
  implementation \<open>JSON_parse\<close> follows the JSON grammar (ECMA-404) and is what the
  concrete runs evaluate: a lexer over the characters, then a pushdown automaton over the
  tokens. It covers texts whose string literals denote code units below 0x100; a \<open>\u\<close>
  escape above that is rejected.
\<close>

datatype token =
    TLBrace | TRBrace | TLBracket | TRBracket | TColon | TComma
  | TStr string | TNum rat | TTrue | TFalse | TNull

definition is_digit :: "char \<Rightarrow> bool" where
  "is_digit c = (48 \<le> (of_char c :: nat) \<and> (of_char c :: nat) \<le> 57)"

definition digit_val :: "char \<Rightarrow> nat" where
  "digit_val c = of_char c - 48"

definition digits_val :: "string \<Rightarrow> nat" where
  "digits_val ds = foldl (\<lambda>n c. 10 * n + digit_val c) 0 ds"

definition is_numchar :: "char \<Rightarrow> bool" where
  "is_numchar c =
     (is_digit c \<or> c = CHR ''-'' \<or> c = CHR ''+'' \<or> c = CHR ''.'' \<or> c = CHR ''e'' \<or> c = CHR ''E'')"

definition is_lower :: "char \<Rightarrow> bool" where
  "is_lower c = (97 \<le> (of_char c :: nat) \<and> (of_char c :: nat) \<le> 122)"

definition json_ws :: "char \<Rightarrow> bool" where
  "json_ws c = (c = CHR 0x20 \<or> c = CHR 0x09 \<or> c = CHR 0x0A \<or> c = CHR 0x0D)"

definition hex_val :: "char \<Rightarrow> nat option" where
  "hex_val c =
     (let n = (of_char c :: nat) in
      if 48 \<le> n \<and> n \<le> 57 then Some (n - 48)
      else if 65 \<le> n \<and> n \<le> 70 then Some (n - 55)
      else if 97 \<le> n \<and> n \<le> 102 then Some (n - 87)
      else None)"

definition scale10 :: "nat \<Rightarrow> int \<Rightarrow> rat" where
  "scale10 m k = (if 0 \<le> k then of_nat m * 10 ^ nat k else of_nat m / 10 ^ nat (- k))"

definition parse_exponent :: "string \<Rightarrow> int option" where
  "parse_exponent s =
     (case s of
        [] \<Rightarrow> Some 0
      | c # r \<Rightarrow>
          (if c = CHR ''e'' \<or> c = CHR ''E'' then
             (let neg = (r \<noteq> [] \<and> hd r = CHR ''-'');
                  ds = (if r \<noteq> [] \<and> (hd r = CHR ''-'' \<or> hd r = CHR ''+'') then tl r else r)
              in if ds \<noteq> [] \<and> list_all is_digit ds
                 then Some (if neg then - int (digits_val ds) else int (digits_val ds))
                 else None)
           else None))"

text \<open>A number literal: \<open>-? (0 | [1-9][0-9]*) (. [0-9]+)? ([eE] [+-]? [0-9]+)?\<close>.\<close>

definition parse_number :: "string \<Rightarrow> rat option" where
  "parse_number s =
     (let neg = (s \<noteq> [] \<and> hd s = CHR ''-'');
          s1 = (if neg then tl s else s);
          ip = takeWhile is_digit s1;
          r1 = dropWhile is_digit s1;
          has_frac = (r1 \<noteq> [] \<and> hd r1 = CHR ''.'');
          fp = (if has_frac then takeWhile is_digit (tl r1) else []);
          r2 = (if has_frac then dropWhile is_digit (tl r1) else r1)
      in if ip = [] \<or> (hd ip = CHR ''0'' \<and> tl ip \<noteq> []) \<or> (has_frac \<and> fp = []) then None
         else (case parse_exponent r2 of
                 None \<Rightarrow> None
               | Some e \<Rightarrow>
                   (let v = scale10 (digits_val (ip @ fp)) (e - int (length fp))
                    in Some (if neg then - v else v))))"

function (sequential) lex :: "string \<Rightarrow> token list option"
  and lex_string :: "string \<Rightarrow> string \<Rightarrow> token list option" where
  "lex [] = Some []"
| "lex (c # cs) =
     (if json_ws c then lex cs
      else if c = CHR ''{'' then map_option ((#) TLBrace) (lex cs)
      else if c = CHR ''}'' then map_option ((#) TRBrace) (lex cs)
      else if c = CHR ''['' then map_option ((#) TLBracket) (lex cs)
      else if c = CHR '']'' then map_option ((#) TRBracket) (lex cs)
      else if c = CHR '':'' then map_option ((#) TColon) (lex cs)
      else if c = CHR '','' then map_option ((#) TComma) (lex cs)
      else if c = CHR 0x22 then lex_string [] cs
      else if is_numchar c then
        (case parse_number (c # takeWhile is_numchar cs) of
           None \<Rightarrow> None
         | Some r \<Rightarrow> map_option ((#) (TNum r)) (lex (dropWhile is_numchar cs)))
      else if is_lower c then
        (let w = c # takeWhile is_lower cs in
         if w = ''true'' then map_option ((#) TTrue) (lex (dropWhile is_lower cs))
         else if w = ''false'' then map_option ((#) TFalse) (lex (dropWhile is_lower cs))
         else if w = ''null'' then map_option ((#) TNull) (lex (dropWhile is_lower cs))
         else None)
      else None)"
| "lex_string acc [] = None"
| "lex_string acc [c] = (if c = CHR 0x22 then Some [TStr (rev acc)] else None)"
| "lex_string acc (c # e # cs) =
     (if c = CHR 0x22 then map_option ((#) (TStr (rev acc))) (lex (e # cs))
      else if c = CHR 0x5C then
        (if e = CHR 0x22 \<or> e = CHR 0x5C \<or> e = CHR ''/'' then lex_string (e # acc) cs
         else if e = CHR ''b'' then lex_string (CHR 0x08 # acc) cs
         else if e = CHR ''f'' then lex_string (CHR 0x0C # acc) cs
         else if e = CHR ''n'' then lex_string (CHR 0x0A # acc) cs
         else if e = CHR ''r'' then lex_string (CHR 0x0D # acc) cs
         else if e = CHR ''t'' then lex_string (CHR 0x09 # acc) cs
         else if e = CHR ''u'' then
           (case cs of
              h1 # h2 # h3 # h4 # rest \<Rightarrow>
                (case (hex_val h1, hex_val h2, hex_val h3, hex_val h4) of
                   (Some a, Some b, Some c', Some d) \<Rightarrow>
                     (if a = 0 \<and> b = 0 then lex_string (char_of (16 * c' + d) # acc) rest
                      else None)
                 | _ \<Rightarrow> None)
            | _ \<Rightarrow> None)
         else None)
      else if (of_char c :: nat) < 32 then None
      else lex_string (c # acc) (e # cs))"
  by pat_completeness auto
termination
  by (relation "measure (case_sum length (\<lambda>(acc, cs). length cs))")
     (auto simp: le_imp_less_Suc length_dropWhile_le)

text \<open>
  The parser's stack: the arrays and objects that are still open, each with what it holds
  so far (latest first) and, for an object, the key whose value is being read.
\<close>

datatype ctx = CArr "json list" | CObj "(string \<times> json) list" string

datatype pmode =
    MValue "ctx list"
  | MArrStart "ctx list"
  | MObjStart "ctx list"
  | MObjKey "(string \<times> json) list" "ctx list"
  | MColon "(string \<times> json) list" string "ctx list"
  | MAfter json "ctx list"

fun value_start :: "ctx list \<Rightarrow> token \<Rightarrow> pmode option" where
  "value_start st (TStr s) = Some (MAfter (JString s) st)"
| "value_start st (TNum r) = Some (MAfter (JNumber r) st)"
| "value_start st TTrue = Some (MAfter (JBool True) st)"
| "value_start st TFalse = Some (MAfter (JBool False) st)"
| "value_start st TNull = Some (MAfter JNull st)"
| "value_start st TLBracket = Some (MArrStart st)"
| "value_start st TLBrace = Some (MObjStart st)"
| "value_start st _ = None"

fun pstep :: "pmode \<Rightarrow> token \<Rightarrow> pmode option" where
  "pstep (MValue st) t = value_start st t"
| "pstep (MArrStart st) t =
     (if t = TRBracket then Some (MAfter (JArray []) st) else value_start (CArr [] # st) t)"
| "pstep (MObjStart st) t =
     (case t of
        TRBrace \<Rightarrow> Some (MAfter (JObject []) st)
      | TStr k \<Rightarrow> Some (MColon [] k st)
      | _ \<Rightarrow> None)"
| "pstep (MObjKey ms st) t = (case t of TStr k \<Rightarrow> Some (MColon ms k st) | _ \<Rightarrow> None)"
| "pstep (MColon ms k st) t = (if t = TColon then Some (MValue (CObj ms k # st)) else None)"
| "pstep (MAfter v []) t = None"
| "pstep (MAfter v (CArr es # st)) t =
     (case t of
        TComma \<Rightarrow> Some (MValue (CArr (v # es) # st))
      | TRBracket \<Rightarrow> Some (MAfter (JArray (rev (v # es))) st)
      | _ \<Rightarrow> None)"
| "pstep (MAfter v (CObj ms k # st)) t =
     (case t of
        TComma \<Rightarrow> Some (MObjKey ((k, v) # ms) st)
      | TRBrace \<Rightarrow> Some (MAfter (JObject (rev ((k, v) # ms))) st)
      | _ \<Rightarrow> None)"

fun prun :: "pmode \<Rightarrow> token list \<Rightarrow> json option" where
  "prun m [] = (case m of MAfter v [] \<Rightarrow> Some v | _ \<Rightarrow> None)"
| "prun m (t # ts) = (case pstep m t of None \<Rightarrow> None | Some m' \<Rightarrow> prun m' ts)"

definition JSON_parse :: "string \<Rightarrow> json option" where
  "JSON_parse s = (case lex s of None \<Rightarrow> None | Some ts \<Rightarrow> prun (MValue []) ts)"

section \<open>Stream transcoder (stream.service)\<close>

subsection \<open>Reading JSON values as JavaScript does\<close>

text \<open>A value used as a condition (\<open>data.event\<close>, \<open>item.text\<close>, ...).\<close>

fun truthy :: "json \<Rightarrow> bool" where
  "truthy JNull = False"
| "truthy (JBool b) = b"
| "truthy (JNumber r) = (r \<noteq> 0)"
| "truthy (JString s) = (s \<noteq> [])"
| "truthy (JArray xs) = True"
| "truthy (JObject ms) = True"

fun truthy_opt :: "json option \<Rightarrow> bool" where
  "truthy_opt None = False"
| "truthy_opt (Some v) = truthy v"

text \<open>
  \<open>v.k\<close> for a value \<open>v\<close> that is not \<open>null\<close>; \<^const>\<open>None\<close> is \<open>undefined\<close>. The names the
  transcoder reads (type, event, delta, text, message, content) exist on an object only
  as members of its own, and on no boolean, number, string or array. Reading a property
  of \<open>null\<close> throws a TypeError: the callers test for \<^term>\<open>JNull\<close> where the source can
  meet it.
\<close>

fun get_prop :: "json \<Rightarrow> string \<Rightarrow> json option" where
  "get_prop (JObject ms) k = map_of (rev ms) k"
| "get_prop _ k = None"

datatype js_error = TypeError

text \<open>\<open>xs.some(p)\<close>, where \<open>p\<close> may throw: it stops at the first element that satisfies \<open>p\<close>.\<close>

fun js_some :: "(json \<Rightarrow> js_error + bool) \<Rightarrow> json list \<Rightarrow> js_error + bool" where
  "js_some p [] = Inr False"
| "js_some p (x # xs) =
     (case p x of
        Inl e \<Rightarrow> Inl e
      | Inr b \<Rightarrow> (if b then Inr True else js_some p xs))"

text \<open>\<open>item => item.type === 'tool_use'\<close> and \<open>item => item.type === 'text' && item.text\<close>.\<close>

definition is_tool_use :: "json \<Rightarrow> js_error + bool" where
  "is_tool_use item =
     (if item = JNull then Inl TypeError
      else Inr (get_prop item ''type'' = Some (JString ''tool_use'')))"

definition is_text_item :: "json \<Rightarrow> js_error + bool" where
  "is_text_item item =
     (if item = JNull then Inl TypeError
      else Inr (get_prop item ''type'' = Some (JString ''text'') \<and> truthy_opt (get_prop item ''text'')))"

text \<open>\<open>delete copy.result\<close> on the shallow copy \<open>{...data}\<close>.\<close>

fun delete_prop :: "string \<Rightarrow> json \<Rightarrow> json" where
  "delete_prop k (JObject ms) = JObject (filter (\<lambda>m. fst m \<noteq> k) ms)"
| "delete_prop k v = v"

subsection \<open>extractTextContent and parseLine\<close>

text \<open>The result \<open>{ type: 'text' | 'data', value }\<close>; \<^const>\<open>None\<close> is the result \<open>null\<close>.\<close>

datatype extracted = ExText string | ExData json

definition stream_event_result :: "json \<Rightarrow> json \<Rightarrow> extracted" where
  "stream_event_result data event =
     (if get_prop event ''type'' = Some (JString ''content_block_delta'')
         \<and> truthy_opt (get_prop event ''delta'')
      then (case get_prop event ''delta'' of
              Some delta \<Rightarrow>
                (if get_prop delta ''type'' = Some (JString ''text_delta'')
                 then (case get_prop delta ''text'' of
                         Some (JString t) \<Rightarrow> ExText t
                       | _ \<Rightarrow> ExData data)
                 else ExData data)
            | None \<Rightarrow> ExData data)
      else ExData data)"

definition assistant_result :: "json \<Rightarrow> json \<Rightarrow> js_error + extracted option" where
  "assistant_result data message =
     (case get_prop message ''content'' of
        Some (JArray content) \<Rightarrow>
          (case js_some is_tool_use content of
             Inl e \<Rightarrow> Inl e
           | Inr hasToolUse \<Rightarrow>
               (case js_some is_text_item content of
                  Inl e \<Rightarrow> Inl e
                | Inr hasText \<Rightarrow>
                    (if \<not> hasToolUse \<and> hasText then Inr None else Inr (Some (ExData data)))))
      | _ \<Rightarrow> Inr (Some (ExData data)))"

definition extractTextContent :: "json \<Rightarrow> js_error + extracted option" where
  "extractTextContent data =
     (if data = JNull then Inl TypeError
      else if get_prop data ''type'' = Some (JString ''stream_event'') \<and> truthy_opt (get_prop data ''event'')
      then (case get_prop data ''event'' of
              Some event \<Rightarrow> Inr (Some (stream_event_result data event))
            | None \<Rightarrow> Inr (Some (ExData data)))
      else if get_prop data ''type'' = Some (JString ''assistant'') \<and> truthy_opt (get_prop data ''message'')
      then (case get_prop data ''message'' of
              Some message \<Rightarrow> assistant_result data message
            | None \<Rightarrow> Inr (Some (ExData data)))
      else if get_prop data ''type'' = Some (JString ''result'')
      then Inr (Some (ExData (delete_prop ''result'' data)))
      else Inr (Some (ExData data)))"

text \<open>
  \<open>parseLine\<close> returns \<open>null\<close> (\<^term>\<open>JNull\<close>), a string or the parsed data. Its \<open>catch\<close>
  takes both a failing \<open>JSON.parse\<close> and an exception of \<open>extractTextContent\<close>.
\<close>

definition parseLine :: "(string \<Rightarrow> json option) \<Rightarrow> string \<Rightarrow> json" where
  "parseLine parse line =
     (let trimmedLine = trim line in
      if trimmedLine = [] then JNull
      else (case parse trimmedLine of
              None \<Rightarrow> JString trimmedLine
            | Some data \<Rightarrow>
                (case extractTextContent data of
                   Inl e \<Rightarrow> JString trimmedLine
                 | Inr None \<Rightarrow> JNull
                 | Inr (Some (ExText t)) \<Rightarrow> JString t
                 | Inr (Some (ExData v)) \<Rightarrow> v)))"

subsection \<open>streamClaudeOutput\<close>

text \<open>
  The outbound events. \<open>toSSEFormat\<close> wraps each one into the frame
  \<open>data: <JSON of the event>\n\n\<close>; the model keeps the event itself.
\<close>

datatype sse_event =
    SSE_start string
  | SSE_data json
  | SSE_error string
  | SSE_end string

text \<open>
  What a child process does on its output channels: the text chunks its standard output
  delivers (after \<open>setEncoding('utf8')\<close>), whether reading it then fails (with the error's
  message) or ends, and the chunks it writes to standard error.
\<close>

record child_process =
  stdout :: "string list"
  stdout_error :: "string option"
  stderr :: "string list"

text \<open>The inner loop \<open>for (const line of lines)\<close> and the outer \<open>for await (const chunk ...)\<close>.\<close>

fun line_loop :: "(string \<Rightarrow> json option) \<Rightarrow> string list \<Rightarrow> sse_event list" where
  "line_loop parse [] = []"
| "line_loop parse (line # lines) =
     (let data = parseLine parse line in
      if data = JNull then line_loop parse lines
      else SSE_data data # line_loop parse lines)"

fun chunk_loop :: "(string \<Rightarrow> json option) \<Rightarrow> string list \<Rightarrow> sse_event list" where
  "chunk_loop parse [] = []"
| "chunk_loop parse (chunk # chunks) =
     line_loop parse (split CHR 0x0A chunk) @ chunk_loop parse chunks"

text \<open>The events the \<open>try\<close> block and its \<open>catch\<close> yield, in order.\<close>

definition try_block :: "(string \<Rightarrow> json option) \<Rightarrow> child_process \<Rightarrow> sse_event list" where
  "try_block parse child =
     chunk_loop parse (stdout child)
     @ (case stdout_error child of None \<Rightarrow> [] | Some message \<Rightarrow> [SSE_error message])"

text \<open>
  \<open>streamClaudeOutput\<close> is an async generator. Its states: not yet started; suspended at
  \<open>yield start\<close>, which stands before the \<open>try\<close>; suspended at a \<open>yield\<close> inside the \<open>try\<close>
  or the \<open>catch\<close>, with the events still to come from there; suspended at \<open>yield end\<close>
  in the \<open>finally\<close>; completed.
\<close>

datatype generator =
    SuspendedStart "sse_event list" string
  | AtYieldStart "sse_event list" string
  | InTry "sse_event list" string
  | InFinally
  | Completed

definition streamClaudeOutput ::
  "(string \<Rightarrow> json option) \<Rightarrow> child_process \<Rightarrow> string \<Rightarrow> generator" where
  "streamClaudeOutput parse child sessionId = SuspendedStart (try_block parse child) sessionId"

text \<open>
  \<open>next()\<close> resumes the generator up to its next \<open>yield\<close>. \<open>return()\<close> resumes it with a
  return at the \<open>yield\<close> where it is suspended: inside the \<open>try\<close> or the \<open>catch\<close> the
  \<open>finally\<close> block runs and yields the end event; at \<open>yield start\<close> no \<open>finally\<close> encloses
  the \<open>yield\<close> and the generator completes.
\<close>

fun gen_next :: "generator \<Rightarrow> sse_event option \<times> generator" where
  "gen_next (SuspendedStart evs sid) = (Some (SSE_start sid), AtYieldStart evs sid)"
| "gen_next (AtYieldStart [] sid) = (Some (SSE_end sid), InFinally)"
| "gen_next (AtYieldStart (e # evs) sid) = (Some e, InTry evs sid)"
| "gen_next (InTry [] sid) = (Some (SSE_end sid), InFinally)"
| "gen_next (InTry (e # evs) sid) = (Some e, InTry evs sid)"
| "gen_next InFinally = (None, Completed)"
| "gen_next Completed = (None, Completed)"

fun gen_return :: "generator \<Rightarrow> sse_event option \<times> generator" where
  "gen_return (SuspendedStart evs sid) = (None, Completed)"
| "gen_return (AtYieldStart evs sid) = (None, Completed)"
| "gen_return (InTry evs sid) = (Some (SSE_end sid), InFinally)"
| "gen_return InFinally = (None, Completed)"
| "gen_return Completed = (None, Completed)"

text \<open>
  A consumer either reads the generator to its end, or takes \<open>k\<close> events and then stops
  (\<open>break\<close> in a \<open>for await\<close> calls \<open>return()\<close>). \<open>emitted\<close> lists every event the
  generator yields, the one yielded in answer to \<open>return()\<close> included.
\<close>

fun gen_size :: "generator \<Rightarrow> nat" where
  "gen_size (SuspendedStart evs sid) = length evs + 4"
| "gen_size (AtYieldStart evs sid) = length evs + 3"
| "gen_size (InTry evs sid) = length evs + 3"
| "gen_size InFinally = 1"
| "gen_size Completed = 0"

function read_all :: "generator \<Rightarrow> sse_event list" where
  "read_all g =
     (case gen_next g of
        (Some e, g') \<Rightarrow> e # read_all g'
      | (None, g') \<Rightarrow> [])"
  by pat_completeness auto
termination
  apply (relation "measure gen_size")
   apply simp
  subgoal for g x1 x2 e
    by (cases g rule: gen_next.cases) auto
  done

declare read_all.simps [simp del]

fun read_then_stop :: "nat \<Rightarrow> generator \<Rightarrow> sse_event list" where
  "read_then_stop 0 g = (case gen_return g of (Some e, g') \<Rightarrow> [e] | (None, g') \<Rightarrow> [])"
| "read_then_stop (Suc k) g =
     (case gen_next g of
        (Some e, g') \<Rightarrow> e # read_then_stop k g'
      | (None, g') \<Rightarrow> [])"

datatype consumer = ReadAll | StopAfter nat

fun emitted :: "consumer \<Rightarrow> generator \<Rightarrow> sse_event list" where
  "emitted ReadAll g = read_all g"
| "emitted (StopAfter k) g = read_then_stop k g"

subsection \<open>The order of the events of one stream\<close>

text \<open>
  The shape \<open>start, data*, error?, end\<close> for the session \<open>sid\<close>: one start event first,
  then data events only, then at most one error event, and the end event last.
\<close>

fun ordered_tail :: "string \<Rightarrow> sse_event list \<Rightarrow> bool" where
  "ordered_tail sid [SSE_end s] = (s = sid)"
| "ordered_tail sid [SSE_error m, SSE_end s] = (s = sid)"
| "ordered_tail sid (SSE_data d # evs) = ordered_tail sid evs"
| "ordered_tail sid evs = False"

fun ordered_stream :: "string \<Rightarrow> sse_event list \<Rightarrow> bool" where
  "ordered_stream sid (SSE_start s # evs) = (s = sid \<and> ordered_tail sid evs)"
| "ordered_stream sid evs = False"

fun is_data :: "sse_event \<Rightarrow> bool" where
  "is_data (SSE_data d) = True"
| "is_data e = False"

subsection \<open>Assistant messages of plain text\<close>






subsection \<open>Example inputs\<close>

definition LF :: string where
  "LF = [CHR 0x0A]"

definition unknown_line :: string where
  \<open>unknown_line = ''{"type":"unknown","x":1}''\<close>

definition unknown_line_head :: string where
  \<open>unknown_line_head = ''{"type":"unk''\<close>

definition unknown_line_rest :: string where
  \<open>unknown_line_rest = ''nown","x":1}''\<close>

definition unbroken_child :: child_process where
  "unbroken_child =
     \<lparr> stdout = [unknown_line @ LF @ LF @ ''plain text''], stdout_error = None, stderr = [] \<rparr>"

definition chunked_child :: child_process where
  "chunked_child =
     \<lparr> stdout = [unknown_line_head, unknown_line_rest @ LF @ LF @ ''pla'', ''in text''],
       stdout_error = None, stderr = [] \<rparr>"

definition failing_child :: child_process where
  "failing_child =
     \<lparr> stdout = [''plain text'' @ LF], stdout_error = Some ''read ECONNRESET'', stderr = [] \<rparr>"

definition stderr_only_child :: child_process where
  "stderr_only_child =
     \<lparr> stdout = [], stdout_error = None, stderr = [''claude: command not found'' @ LF] \<rparr>"





section \<open>Concurrency limiter (concurrent.service)\<close>

text \<open>
  A queued task. \<open>task_id\<close> stands for what identifies the task in the source: its
  \<open>resolve\<close> function (the timer callback finds the task by it) and its timer handle.
  It is the number of the \<open>run\<close> call that made the task.
\<close>

record QueuedTask =
  task_id :: nat
  timestamp :: int

text \<open>How the promise returned by \<open>run\<close> is settled.\<close>

datatype rejection =
    JobError
  | TimeoutError int
  | ShutdownError

datatype outcome = Resolved | Rejected rejection

record ConcurrencyLimiter =
  active :: int
  maxConcurrent :: int
  queue :: "QueuedTask list"
  defaultTimeout :: int

text \<open>
  What waits in the microtask queue of the runtime for a limiter: a callback that
  \<open>processNext\<close> has handed to \<open>Promise.resolve().then\<close>, which will call
  \<open>task.execute()\<close>; or the rest of \<open>executeDirect\<close>, respectively of such a callback,
  after its \<open>await\<close>, scheduled when the promise of the job body settled (\<^term>\<open>True\<close>: it
  resolved, \<^term>\<open>False\<close>: it rejected), which will run the \<open>finally\<close> block.
\<close>

datatype microtask =
    Begin nat
  | ResumeDirect nat bool
  | ResumePromoted nat bool

text \<open>
  The limiter together with what the JavaScript runtime holds for it: the number of
  \<open>run\<close> calls so far; the armed timers, each with the \<open>timeout\<close> its callback has
  captured; the microtask queue (oldest first); the jobs whose body is running, started
  by \<open>executeDirect\<close> or by a callback of \<open>processNext\<close>; the settled promises.
  \<open>started\<close> and \<open>finished\<close> record the calls of \<open>execute()\<close> and the completions of the
  job bodies, in order.
\<close>

record limiter_state = ConcurrencyLimiter +
  calls :: nat
  timers :: "nat \<rightharpoonup> int"
  microtask_queue :: "microtask list"
  direct :: "nat list"
  promoted :: "nat list"
  settled :: "nat \<rightharpoonup> outcome"
  started :: "nat list"
  finished :: "nat list"

definition new_limiter :: "int \<Rightarrow> int \<Rightarrow> limiter_state" where
  "new_limiter maxc timeout =
     \<lparr> active = 0, maxConcurrent = maxc, queue = [], defaultTimeout = timeout,
       calls = 0, timers = Map.empty, microtask_queue = [], direct = [], promoted = [],
       settled = Map.empty, started = [], finished = [] \<rparr>"

text \<open>The limiter of the server: \<open>new ConcurrencyLimiter(5, 120000)\<close>.\<close>

definition globalLimiter :: limiter_state where
  "globalLimiter = new_limiter 5 120000"

text \<open>\<open>resolve\<close> and \<open>reject\<close> of a promise: only the first call settles it.\<close>

definition settle :: "nat \<Rightarrow> outcome \<Rightarrow> limiter_state \<Rightarrow> limiter_state" where
  "settle j out s =
     (case settled s j of
        None \<Rightarrow> s\<lparr>settled := (settled s)(j \<mapsto> out)\<rparr>
      | Some _ \<Rightarrow> s)"

text \<open>
  \<open>processNext\<close>: while a task waits and a slot is free, take the first task, clear its
  timer, count it as active and schedule its callback.
\<close>

function processNext :: "limiter_state \<Rightarrow> limiter_state" where
  "processNext s =
     (case queue s of
        [] \<Rightarrow> s
      | task # rest \<Rightarrow>
          (if active s < maxConcurrent s then
             processNext
               (s\<lparr>queue := rest,
                  timers := (timers s)(task_id task := None),
                  active := active s + 1,
                  microtask_queue := microtask_queue s @ [Begin (task_id task)]\<rparr>)
           else s))"
  by pat_completeness auto
termination
  by (relation "measure (\<lambda>s. length (queue s))") auto

declare processNext.simps [simp del]

text \<open>
  \<open>executeDirect\<close> up to its \<open>await\<close>: the slot is taken and \<open>execute()\<close> is called in the
  same synchronous step. \<open>enqueue\<close>: the timer is armed and the task is pushed.
\<close>

definition executeDirect :: "nat \<Rightarrow> limiter_state \<Rightarrow> limiter_state" where
  "executeDirect j s =
     s\<lparr>active := active s + 1, started := started s @ [j], direct := j # direct s\<rparr>"

definition enqueue :: "nat \<Rightarrow> int \<Rightarrow> int \<Rightarrow> limiter_state \<Rightarrow> limiter_state" where
  "enqueue j timeout now s =
     s\<lparr>timers := (timers s)(j \<mapsto> timeout),
       queue := queue s @ [\<lparr> task_id = j, timestamp = now \<rparr>]\<rparr>"

definition run :: "int option \<Rightarrow> int \<Rightarrow> limiter_state \<Rightarrow> limiter_state" where
  "run timeout now s =
     (let j = calls s; s = s\<lparr>calls := Suc j\<rparr> in
      if active s < maxConcurrent s then executeDirect j s
      else enqueue j (case timeout of Some t \<Rightarrow> t | None \<Rightarrow> defaultTimeout s) now s)"

text \<open>
  The callback scheduled by \<open>processNext\<close> calls \<open>task.execute()\<close> and, like
  \<open>executeDirect\<close>, suspends at its \<open>await\<close>. When the promise of the job body settles,
  the body has finished and the rest of the function is scheduled as a microtask; the
  slot is still counted in \<open>active\<close>. Only when that microtask runs do the \<open>finally\<close>
  blocks release the slot and call \<open>processNext\<close>; the callback settles the promise of
  the call before its \<open>finally\<close>, \<open>executeDirect\<close> returns the outcome after it (the
  promise that \<open>run\<close> returned takes this outcome some microtasks later, which the model
  records at once).
\<close>

definition begin_promoted :: "nat \<Rightarrow> limiter_state \<Rightarrow> limiter_state" where
  "begin_promoted j s = s\<lparr>started := started s @ [j], promoted := j # promoted s\<rparr>"

definition job_outcome :: "bool \<Rightarrow> outcome" where
  "job_outcome ok = (if ok then Resolved else Rejected JobError)"

definition job_finally :: "limiter_state \<Rightarrow> limiter_state" where
  "job_finally s = processNext (s\<lparr>active := active s - 1\<rparr>)"

definition body_settles_direct :: "nat \<Rightarrow> bool \<Rightarrow> limiter_state \<Rightarrow> limiter_state" where
  "body_settles_direct j ok s =
     s\<lparr>direct := remove1 j (direct s), finished := finished s @ [j],
       microtask_queue := microtask_queue s @ [ResumeDirect j ok]\<rparr>"

definition body_settles_promoted :: "nat \<Rightarrow> bool \<Rightarrow> limiter_state \<Rightarrow> limiter_state" where
  "body_settles_promoted j ok s =
     s\<lparr>promoted := remove1 j (promoted s), finished := finished s @ [j],
       microtask_queue := microtask_queue s @ [ResumePromoted j ok]\<rparr>"

definition resume_direct :: "nat \<Rightarrow> bool \<Rightarrow> limiter_state \<Rightarrow> limiter_state" where
  "resume_direct j ok s = settle j (job_outcome ok) (job_finally s)"

definition resume_promoted :: "nat \<Rightarrow> bool \<Rightarrow> limiter_state \<Rightarrow> limiter_state" where
  "resume_promoted j ok s = job_finally (settle j (job_outcome ok) s)"

fun run_microtask :: "microtask \<Rightarrow> limiter_state \<Rightarrow> limiter_state" where
  "run_microtask (Begin j) s = begin_promoted j s"
| "run_microtask (ResumeDirect j ok) s = resume_direct j ok s"
| "run_microtask (ResumePromoted j ok) s = resume_promoted j ok s"

text \<open>
  The timer callback of \<open>enqueue\<close>: \<open>findIndex\<close> and \<open>splice\<close> remove the task if it is
  still queued, then the promise is rejected with the timeout error, whose message
  carries \<open>timeout / 1000\<close>.
\<close>

fun remove_task :: "nat \<Rightarrow> QueuedTask list \<Rightarrow> QueuedTask list" where
  "remove_task j [] = []"
| "remove_task j (t # ts) = (if task_id t = j then ts else t # remove_task j ts)"

definition timer_callback :: "nat \<Rightarrow> int \<Rightarrow> limiter_state \<Rightarrow> limiter_state" where
  "timer_callback j timeout s =
     settle j (Rejected (TimeoutError timeout)) (s\<lparr>queue := remove_task j (queue s)\<rparr>)"

definition setMaxConcurrent :: "int \<Rightarrow> limiter_state \<Rightarrow> limiter_state" where
  "setMaxConcurrent maxc s = processNext (s\<lparr>maxConcurrent := maxc\<rparr>)"

definition setDefaultTimeout :: "int \<Rightarrow> limiter_state \<Rightarrow> limiter_state" where
  "setDefaultTimeout timeout s = s\<lparr>defaultTimeout := timeout\<rparr>"

fun reject_all :: "QueuedTask list \<Rightarrow> limiter_state \<Rightarrow> limiter_state" where
  "reject_all [] s = s"
| "reject_all (task # tasks) s =
     reject_all tasks
       (settle (task_id task) (Rejected ShutdownError)
          (s\<lparr>timers := (timers s)(task_id task := None)\<rparr>))"

definition clear :: "limiter_state \<Rightarrow> limiter_state" where
  "clear s = (reject_all (queue s) s)\<lparr>queue := []\<rparr>"

text \<open>\<open>getStatus\<close> (active, max, available, queued) and \<open>getQueueInfo\<close> at the time \<open>now\<close>.\<close>

definition getStatus :: "limiter_state \<Rightarrow> int \<times> int \<times> int \<times> nat" where
  "getStatus s =
     (active s, maxConcurrent s, max 0 (maxConcurrent s - active s), length (queue s))"

definition getQueueInfo :: "int \<Rightarrow> limiter_state \<Rightarrow> (int \<times> int) list" where
  "getQueueInfo now s = map (\<lambda>task. (timestamp task, now - timestamp task)) (queue s)"

text \<open>
  What can happen to a limiter, one synchronous step each: a call of \<open>run\<close> (with its
  optional timeout, at the clock time \<open>now\<close>); the oldest microtask runs; the promise of
  the body of a running job settles (\<^term>\<open>True\<close>: it resolves, \<^term>\<open>False\<close>: it rejects);
  an armed timer fires; \<open>setMaxConcurrent\<close>, \<open>setDefaultTimeout\<close>, \<open>clear\<close>. A step that
  cannot happen in a state (no microtask, no such job or timer) is \<^const>\<open>None\<close>.
\<close>

datatype event =
    Run "int option" int
  | Microtask
  | Finish nat bool
  | TimerFires nat
  | SetMaxConcurrent int
  | SetDefaultTimeout int
  | Clear

fun step :: "event \<Rightarrow> limiter_state \<Rightarrow> limiter_state option" where
  "step (Run timeout now) s = Some (run timeout now s)"
| "step Microtask s =
     (case microtask_queue s of
        [] \<Rightarrow> None
      | m # ms \<Rightarrow> Some (run_microtask m (s\<lparr>microtask_queue := ms\<rparr>)))"
| "step (Finish j ok) s =
     (if j \<in> set (direct s) then Some (body_settles_direct j ok s)
      else if j \<in> set (promoted s) then Some (body_settles_promoted j ok s)
      else None)"
| "step (TimerFires j) s =
     (case timers s j of
        None \<Rightarrow> None
      | Some timeout \<Rightarrow> Some (timer_callback j timeout (s\<lparr>timers := (timers s)(j := None)\<rparr>)))"
| "step (SetMaxConcurrent maxc) s = Some (setMaxConcurrent maxc s)"
| "step (SetDefaultTimeout timeout) s = Some (setDefaultTimeout timeout s)"
| "step Clear s = Some (clear s)"

fun run_events :: "event list \<Rightarrow> limiter_state \<Rightarrow> limiter_state option" where
  "run_events [] s = Some s"
| "run_events (e # es) s =
     (case step e s of None \<Rightarrow> None | Some s' \<Rightarrow> run_events es s')"


definition queued_ids :: "limiter_state \<Rightarrow> nat list" where
  "queued_ids s = map task_id (queue s)"

text \<open>
  The promoted tasks whose callback is scheduled and has not called \<open>task.execute()\<close>
  yet, and the jobs whose body has finished and whose \<open>finally\<close> block has not run yet.
\<close>

fun callback_ids :: "microtask list \<Rightarrow> nat list" where
  "callback_ids [] = []"
| "callback_ids (Begin j # ms) = j # callback_ids ms"
| "callback_ids (m # ms) = callback_ids ms"

fun continuation_ids :: "microtask list \<Rightarrow> nat list" where
  "continuation_ids [] = []"
| "continuation_ids (Begin j # ms) = continuation_ids ms"
| "continuation_ids (ResumeDirect j ok # ms) = j # continuation_ids ms"
| "continuation_ids (ResumePromoted j ok # ms) = j # continuation_ids ms"

definition microtasks :: "limiter_state \<Rightarrow> nat list" where
  "microtasks s = callback_ids (microtask_queue s)"

definition releasing :: "limiter_state \<Rightarrow> nat list" where
  "releasing s = continuation_ids (microtask_queue s)"


text \<open>
  The bookkeeping that every reachable state keeps, in three parts. The counters:
  \<open>active\<close> counts the microtasks and the running jobs, and the started jobs are the
  running and the finished ones. The identifiers: a job waits, or its callback is
  scheduled, or it has been started, never two of these and never twice, and all of them
  belong to calls already made; a job whose \<open>finally\<close> block is scheduled has been
  started. The promises: exactly the waiting tasks have an armed
  timer and their promises are pending, and a job whose promise was rejected with a
  timeout error neither waits nor is scheduled nor was ever started.
\<close>

definition known_ids :: "limiter_state \<Rightarrow> nat list" where
  "known_ids s = queued_ids s @ microtasks s @ started s"

definition count_inv :: "limiter_state \<Rightarrow> bool" where
  "count_inv s =
     (active s = int (length (microtask_queue s) + length (direct s) + length (promoted s))
      \<and> length (started s) = length (direct s) + length (promoted s) + length (finished s))"

definition ids_inv :: "limiter_state \<Rightarrow> bool" where
  "ids_inv s =
     (distinct (known_ids s)
      \<and> (\<forall>j \<in> set (known_ids s). j < calls s)
      \<and> set (direct s) \<union> set (promoted s) \<union> set (releasing s) \<subseteq> set (started s))"

definition promise_inv :: "limiter_state \<Rightarrow> bool" where
  "promise_inv s =
     (dom (timers s) = set (queued_ids s)
      \<and> (\<forall>j \<in> set (queued_ids s). settled s j = None)
      \<and> (\<forall>j. calls s \<le> j \<longrightarrow> settled s j = None)
      \<and> (\<forall>j t. settled s j = Some (Rejected (TimeoutError t)) \<longrightarrow> j \<notin> set (known_ids s)))"

definition limiter_inv :: "limiter_state \<Rightarrow> bool" where
  "limiter_inv s = (count_inv s \<and> ids_inv s \<and> promise_inv s)"

text \<open>
  The timer of call \<open>j\<close> is not armed or is armed with the timeout \<open>t\<close>.
\<close>

definition timer_of :: "nat \<Rightarrow> int \<Rightarrow> limiter_state \<Rightarrow> bool" where
  "timer_of j t s = (j < calls s \<and> (timers s j = None \<or> timers s j = Some t))"

section \<open>Process launcher (claude.service)\<close>

definition buildClaudeArgs ::
  "string option \<Rightarrow> bool \<Rightarrow> string option \<Rightarrow> string list \<Rightarrow> string list" where
  "buildClaudeArgs session isStream mcpConfigPath permissionArgs =
     [''-p'', ''--dangerously-skip-permissions'', ''--permission-mode'', ''bypassPermissions'',
      ''--output-format'', ''stream-json'', ''--verbose'']
     @ (if isStream then [''--include-partial-messages''] else [])
     @ (case mcpConfigPath of
          Some p \<Rightarrow> (if p \<noteq> [] then [''--mcp-config'', p] else [])
        | None \<Rightarrow> [])
     @ permissionArgs
     @ (case session of
          Some s \<Rightarrow> (if s \<noteq> [] then [''--resume'', s] else [])
        | None \<Rightarrow> [])"

text \<open>
  What one request does to its child process and to its HTTP response, in order.
  \<open>Spawn\<close> is the call \<open>spawn(command, args, config)\<close> with the working directory and the
  arguments; \<open>KillChild\<close> is \<open>child.kill(signal)\<close> (\<open>child.kill()\<close> sends SIGTERM);
  \<open>Reply\<close> is \<open>reply.code(n).send(...)\<close>; \<open>Write\<close> is \<open>reply.raw.write\<close> of the frame of a
  stream event and \<open>WriteErrorEvent\<close> the write of the error frame in the handler's
  \<open>catch\<close>; \<open>EndResponse\<close> is \<open>reply.raw.end()\<close>. Console output is not recorded.
\<close>

datatype signal = SIGTERM | SIGKILL

datatype failure =
    SpawnThrew string
  | StdinWriteFailed string
  | WriteThrew string

datatype effect =
    Reply nat
  | LogError failure
  | Spawn string "string list"
  | StdinWrite string
  | StdinEnd
  | KillChild signal
  | SetSSEHeaders
  | Write sse_event
  | WriteErrorEvent failure
  | EndResponse

text \<open>
  What the surroundings of one request decide: whether \<open>spawn\<close> throws; whether writing
  the prompt to the child's standard input throws; what the child's channels deliver;
  after how many writes \<open>reply.raw.writableEnded\<close> is found true; which write throws, if
  any; the MCP configuration file, if it exists; the default working directory; and the
  fixed clause that \<open>applyVisionRestriction\<close> appends (a constant of the source). The
  command runs through a shell (\<open>shell: true\<close> in \<open>buildSpawnConfig\<close>): when the command
  is not found or may not be executed, \<open>spawn\<close> still starts the shell, and the child is
  one that writes the shell's message to standard error and exits.
\<close>

record request_env =
  spawn_throws :: "string option"
  stdin_error :: "string option"
  child_output :: child_process
  ended_after :: "nat option"
  write_error :: "(nat \<times> string) option"
  mcpConfigPath :: "string option"
  workingDir :: string
  restriction :: string

text \<open>
  \<open>spawnClaudeProcess\<close> returns the child, or throws: \<open>spawn\<close> stands outside its \<open>try\<close>,
  and a failing write to standard input is caught, the child killed and a new error
  thrown.
\<close>

definition spawnClaudeProcess ::
  "request_env \<Rightarrow> string \<Rightarrow> string \<Rightarrow> string option \<Rightarrow> string list
     \<Rightarrow> effect list \<times> (failure + unit)" where
  "spawnClaudeProcess env cwd prompt' session permissionArgs =
     (let args = buildClaudeArgs session True (mcpConfigPath env) permissionArgs in
      case spawn_throws env of
        Some m \<Rightarrow> ([Spawn cwd args], Inl (SpawnThrew m))
      | None \<Rightarrow>
          (case stdin_error env of
             None \<Rightarrow> ([Spawn cwd args, StdinWrite (prompt' @ [CHR 0x0A]), StdinEnd], Inr ())
           | Some m \<Rightarrow> ([Spawn cwd args, KillChild SIGTERM], Inl (StdinWriteFailed m))))"

text \<open>\<open>killClaudeProcess\<close>, given \<open>child.killed\<close>.\<close>

definition killClaudeProcess :: "bool \<Rightarrow> effect list" where
  "killClaudeProcess killed = (if \<not> killed then [KillChild SIGTERM] else [])"

section \<open>Request handler (routes/chat)\<close>

record ClaudePrompt =
  prompt :: string
  sessionId :: "string option"
  workspace :: "string option"
  externaldirs :: "string option"
  allowedmode :: "string option"
  vision :: "string option"

text \<open>\<open>chatRequestSchema.safeParse(request.body).success\<close> on a body of the declared type.\<close>

definition chatRequestSchema_ok :: "ClaudePrompt \<Rightarrow> bool" where
  "chatRequestSchema_ok body =
     (1 \<le> length (prompt body)
      \<and> (case allowedmode body of
            None \<Rightarrow> True
          | Some m \<Rightarrow> m \<in> set [''pure'', ''simple'', ''readonly'', ''projectwrite'']))"

definition session_of :: "ClaudePrompt \<Rightarrow> string option" where
  "session_of body =
     (case sessionId body of
        Some sid \<Rightarrow> (if sid \<noteq> [] \<and> trim sid \<noteq> [] then Some sid else None)
      | None \<Rightarrow> None)"

definition applyVisionRestriction :: "string \<Rightarrow> string \<Rightarrow> string option \<Rightarrow> string" where
  "applyVisionRestriction clause prompt' vision' =
     (case vision' of
        Some v \<Rightarrow> (if v \<noteq> [] \<and> 0 < length (trim v) then prompt' @ clause else prompt')
      | None \<Rightarrow> prompt')"

definition writableEnded :: "request_env \<Rightarrow> nat \<Rightarrow> bool" where
  "writableEnded env n = (case ended_after env of Some k \<Rightarrow> k \<le> n | None \<Rightarrow> False)"

definition write_throws :: "request_env \<Rightarrow> nat \<Rightarrow> string option" where
  "write_throws env n =
     (case write_error env of Some (k, m) \<Rightarrow> (if k = n then Some m else None) | None \<Rightarrow> None)"

text \<open>
  The loop \<open>for await (const event of streamClaudeOutput(...))\<close> after \<open>n\<close> writes: the
  writes it still makes and the exception that ends it, if one does. It stops without
  a write when the response is found ended (\<open>break\<close>), and when the generator is done.
\<close>

function forward :: "request_env \<Rightarrow> nat \<Rightarrow> generator \<Rightarrow> effect list \<times> string option" where
  "forward env n g =
     (case gen_next g of
        (None, g') \<Rightarrow> ([], None)
      | (Some event, g') \<Rightarrow>
          (if writableEnded env n then ([], None)
           else (case write_throws env n of
                   Some m \<Rightarrow> ([], Some m)
                 | None \<Rightarrow>
                     (case forward env (Suc n) g' of
                        (effs, r) \<Rightarrow> (Write event # effs, r)))))"
  by pat_completeness auto
termination
  apply (relation "measure (\<lambda>(env, n, g). gen_size g)")
   apply simp
  subgoal for env n g x1 x2 e
    by (cases g rule: gen_next.cases) auto
  done

declare forward.simps [simp del]

text \<open>
  The job that \<open>handleStreamChat\<close> gives to the limiter. The response is fresh when the
  job starts (no header sent, not ended); its headers are sent with the first write.
  \<open>getTargetDirectory(session, undefined, workingDir)\<close> returns \<open>workingDir\<close>. No one but
  this job holds the child, so \<open>child.killed\<close> is false when the \<open>finally\<close> runs.
\<close>

definition stream_to_client ::
  "(string \<Rightarrow> json option) \<Rightarrow> request_env \<Rightarrow> string option \<Rightarrow> effect list" where
  "stream_to_client parse env session =
     (case forward env 0
             (streamClaudeOutput parse (child_output env) (case session of Some s \<Rightarrow> s | None \<Rightarrow> ''new''))
      of
        (writes, None) \<Rightarrow>
          writes
          @ (if \<not> writableEnded env (length writes) then [EndResponse] else [])
          @ killClaudeProcess False
      | (writes, Some m) \<Rightarrow>
          writes
          @ killClaudeProcess False
          @ [LogError (WriteThrew m)]
          @ (if writes = [] then [Reply 500] else [WriteErrorEvent (WriteThrew m), EndResponse]))"

definition handleStreamChat_job ::
  "(string \<Rightarrow> json option) \<Rightarrow> request_env \<Rightarrow> ClaudePrompt \<Rightarrow> effect list" where
  "handleStreamChat_job parse env body =
     (let session = session_of body;
          workspace' = map_option trim (workspace body);
          externaldirs' = map_option trim (externaldirs body);
          allowedmode' = map_option trim (allowedmode body);
          vision' = map_option trim (vision body)
      in if \<not> chatRequestSchema_ok body then [Reply 400]
         else
           (let prompt' = applyVisionRestriction (restriction env) (prompt body) vision';
                targetDir =
                  (case workspace' of
                     Some w \<Rightarrow> (if w \<noteq> [] then w else workingDir env)
                   | None \<Rightarrow> workingDir env);
                permissionArgs =
                  buildPermissionArgs (buildPermissionConfig allowedmode' workspace' externaldirs')
            in case spawnClaudeProcess env targetDir prompt' session permissionArgs of
                 (effs, Inl failure) \<Rightarrow> effs @ [LogError failure, Reply 500]
               | (effs, Inr child_handle) \<Rightarrow>
                   effs @ [SetSSEHeaders] @ stream_to_client parse env session))"

text \<open>
  The error handler of the server (\<open>setErrorHandler\<close> in server.ts) replies with
  \<open>error.statusCode || 500\<close>.
\<close>

definition errorHandler :: "nat option \<Rightarrow> effect list" where
  "errorHandler statusCode =
     [Reply (case statusCode of Some c \<Rightarrow> (if c \<noteq> 0 then c else 500) | None \<Rightarrow> 500)]"

text \<open>
  \<open>handleStreamChat\<close> awaits \<open>globalLimiter.run(job)\<close>: the job runs once the limiter
  starts it. When the promise of \<open>run\<close> is rejected while the job waits (timeout,
  shutdown), the handler throws that error, which has no \<open>statusCode\<close>, and the server's
  error handler answers.
\<close>

datatype admission = Admitted | RejectedWhileQueued rejection

definition handleStreamChat ::
  "(string \<Rightarrow> json option) \<Rightarrow> request_env \<Rightarrow> ClaudePrompt \<Rightarrow> admission \<Rightarrow> effect list" where
  "handleStreamChat parse env body adm =
     (case adm of
        Admitted \<Rightarrow> handleStreamChat_job parse env body
      | RejectedWhileQueued r \<Rightarrow> errorHandler None)"

text \<open>How the limiter has answered the call \<open>j\<close> in the state \<open>s\<close>, if it has.\<close>

definition admission_of :: "limiter_state \<Rightarrow> nat \<Rightarrow> admission option" where
  "admission_of s j =
     (if j \<in> set (started s) then Some Admitted
      else (case settled s j of
              Some (Rejected r) \<Rightarrow> Some (RejectedWhileQueued r)
            | _ \<Rightarrow> None))"

text \<open>The waiting calls of a state, and the limiter's answer to the call \<open>j\<close>.\<close>

definition queue_and_admission :: "nat \<Rightarrow> limiter_state \<Rightarrow> nat list \<times> admission option" where
  "queue_and_admission j s = (queued_ids s, admission_of s j)"

fun is_kill :: "effect \<Rightarrow> bool" where
  "is_kill (KillChild sig) = True"
| "is_kill e = False"

fun is_spawn :: "effect \<Rightarrow> bool" where
  "is_spawn (Spawn cwd args) = True"
| "is_spawn e = False"

fun is_write :: "effect \<Rightarrow> bool" where
  "is_write (Write event) = True"
| "is_write e = False"

subsection \<open>Example requests\<close>

definition plain_env :: request_env where
  "plain_env =
     \<lparr> spawn_throws = None, stdin_error = None, child_output = unbroken_child, ended_after = None,
       write_error = None, mcpConfigPath = None, workingDir = ''/work'', restriction = '' (clause)'' \<rparr>"

definition hello_request :: ClaudePrompt where
  "hello_request =
     \<lparr> prompt = ''hello'', sessionId = None, workspace = None, externaldirs = None,
       allowedmode = None, vision = None \<rparr>"

definition empty_prompt_request :: ClaudePrompt where
  "empty_prompt_request = hello_request\<lparr>prompt := []\<rparr>"

definition base_args :: "string list" where
  "base_args =
     [''-p'', ''--dangerously-skip-permissions'', ''--permission-mode'', ''bypassPermissions'',
      ''--output-format'', ''stream-json'', ''--verbose'', ''--include-partial-messages'']"

section \<open>Properties of the permission builder\<close>

text \<open>
  C5. \<open>buildPermissionConfig('projectwrite', 'D:/Proj', undefined)\<close> has the allowedTools
  string \<open>"Edit(D:/Proj/**)","Read"\<close> (with its four double quotes), and
  \<open>buildPermissionConfig('pure', undefined, undefined)\<close> has the allowedTools string made
  of two double quotes and noIndexing true.
\<close>

theorem buildPermissionConfig_examples:
  "allowedTools (buildPermissionConfig (Some ''projectwrite'') (Some ''D:/Proj'') None)
     = Some ([CHR 0x22] @ ''Edit(D:/Proj/**)'' @ [CHR 0x22] @ '','' @ [CHR 0x22] @ ''Read'' @ [CHR 0x22])
   \<and> allowedTools (buildPermissionConfig (Some ''pure'') None None) = Some [CHR 0x22, CHR 0x22]
   \<and> noIndexing (buildPermissionConfig (Some ''pure'') None None) = Some True"
  by (simp add: buildPermissionConfig_def buildAllowedToolsArg_def dquote_def)

section \<open>Properties of the stream transcoder\<close>

subsection \<open>What a consumer reads from the generator\<close>

lemma read_all_InFinally: "read_all InFinally = []"
  by (simp add: read_all.simps)

lemma read_all_InTry: "read_all (InTry evs sid) = evs @ [SSE_end sid]"
  by (induction evs) (simp_all add: read_all.simps [of "InTry _ _"] read_all_InFinally)

lemma read_all_AtYieldStart: "read_all (AtYieldStart evs sid) = evs @ [SSE_end sid]"
  by (cases evs) (simp_all add: read_all.simps [of "AtYieldStart _ _"] read_all_InFinally read_all_InTry)

lemma read_all_SuspendedStart:
  "read_all (SuspendedStart evs sid) = SSE_start sid # evs @ [SSE_end sid]"
  by (simp add: read_all.simps [of "SuspendedStart _ _"] read_all_AtYieldStart)

lemma read_then_stop_InFinally: "read_then_stop k InFinally = []"
  by (cases k) simp_all

lemma read_then_stop_InTry: "read_then_stop k (InTry evs sid) = take k evs @ [SSE_end sid]"
proof (induction evs arbitrary: k)
  case Nil
  then show ?case by (cases k) (simp_all add: read_then_stop_InFinally)
next
  case (Cons e evs)
  then show ?case by (cases k) simp_all
qed

lemma read_then_stop_AtYieldStart:
  "read_then_stop (Suc k) (AtYieldStart evs sid) = take (Suc k) evs @ [SSE_end sid]"
  by (cases evs) (simp_all add: read_then_stop_InFinally read_then_stop_InTry)

lemma read_all_stream:
  "read_all (streamClaudeOutput parse child sid)
     = SSE_start sid # try_block parse child @ [SSE_end sid]"
  by (simp add: streamClaudeOutput_def read_all_SuspendedStart)

lemma read_then_stop_stream:
  "read_then_stop (Suc (Suc k)) (streamClaudeOutput parse child sid)
     = SSE_start sid # take (Suc k) (try_block parse child) @ [SSE_end sid]"
  by (simp del: read_then_stop.simps
      add: streamClaudeOutput_def read_then_stop.simps(2) [of _ "SuspendedStart _ _"]
        read_then_stop_AtYieldStart)

lemma read_then_stop_stream_1:
  "read_then_stop (Suc 0) (streamClaudeOutput parse child sid) = [SSE_start sid]"
  by (simp add: streamClaudeOutput_def)

lemma read_then_stop_stream_0:
  "read_then_stop 0 (streamClaudeOutput parse child sid) = []"
  by (simp add: streamClaudeOutput_def)

lemma line_loop_data: "list_all is_data (line_loop parse ls)"
  by (induction ls) (simp_all add: Let_def)

lemma chunk_loop_data: "list_all is_data (chunk_loop parse cs)"
  by (induction cs) (simp_all add: line_loop_data)

lemma ordered_tail_data_end: "list_all is_data ds \<Longrightarrow> ordered_tail sid (ds @ [SSE_end sid])"
proof (induction ds)
  case Nil
  then show ?case by simp
next
  case (Cons d ds)
  then show ?case by (cases d) simp_all
qed

lemma ordered_tail_data_error_end:
  "list_all is_data ds \<Longrightarrow> ordered_tail sid (ds @ [SSE_error m, SSE_end sid])"
proof (induction ds)
  case Nil
  then show ?case by simp
next
  case (Cons d ds)
  then show ?case by (cases d) simp_all
qed

lemma list_all_take: "list_all P xs \<Longrightarrow> list_all P (take n xs)"
  by (induction xs arbitrary: n) (auto simp: take_Cons split: nat.splits)

lemma ordered_tail_take_try_block:
  "ordered_tail sid (take n (try_block parse child) @ [SSE_end sid])"
proof (cases "stdout_error child")
  case None
  then show ?thesis
    by (simp add: try_block_def ordered_tail_data_end list_all_take chunk_loop_data)
next
  case (Some m)
  show ?thesis
  proof (cases "n \<le> length (chunk_loop parse (stdout child))")
    case True
    then show ?thesis using Some
      by (simp add: try_block_def ordered_tail_data_end list_all_take chunk_loop_data)
  next
    case False
    then show ?thesis using Some
      by (simp add: try_block_def ordered_tail_data_error_end chunk_loop_data)
  qed
qed

lemma ordered_tail_try_block: "ordered_tail sid (try_block parse child @ [SSE_end sid])"
  using ordered_tail_take_try_block [of sid "length (try_block parse child)" parse child]
  by simp

lemma error_in_try_block:
  "SSE_error m \<in> set (try_block parse child) \<Longrightarrow> stdout_error child = Some m"
proof -
  assume a: "SSE_error m \<in> set (try_block parse child)"
  have "SSE_error m \<notin> set (chunk_loop parse (stdout child))"
    using chunk_loop_data [of parse "stdout child"] by (auto simp: list_all_iff)
  with a show ?thesis by (auto simp: try_block_def split: option.splits)
qed

lemma emitted_subset:
  "set (emitted c (streamClaudeOutput parse child sid))
     \<subseteq> {SSE_start sid, SSE_end sid} \<union> set (try_block parse child)"
proof (cases c)
  case ReadAll
  then show ?thesis by (auto simp: read_all_stream)
next
  case (StopAfter k)
  show ?thesis
  proof (cases k)
    case 0
    then show ?thesis using StopAfter by (simp add: streamClaudeOutput_def)
  next
    case (Suc j)
    show ?thesis
    proof (cases j)
      case 0
      then show ?thesis using StopAfter Suc by (simp add: streamClaudeOutput_def)
    next
      case (Suc i)
      have "set (take (Suc i) (try_block parse child)) \<subseteq> set (try_block parse child)"
        by (rule set_take_subset)
      then show ?thesis using StopAfter \<open>k = Suc j\<close> Suc
        by (auto simp del: read_then_stop.simps take_Suc_Cons simp add: read_then_stop_stream)
    qed
  qed
qed


text \<open>
  The paths on which the \<open>finally\<close> block of \<open>streamClaudeOutput\<close> does its work. Read to
  its end, the stream has the shape start, data*, error?, end. So it has when the
  consumer stops after two or more events: the generator is then suspended inside the
  \<open>try\<close> statement and its \<open>finally\<close> yields the end event in answer to \<open>return()\<close>. An
  error event carries the message of the read error of standard output.
\<close>

theorem streamClaudeOutput_event_order:
  "ordered_stream sid (emitted ReadAll (streamClaudeOutput parse child sid))
   \<and> ordered_stream sid (emitted (StopAfter (Suc (Suc k))) (streamClaudeOutput parse child sid))
   \<and> (SSE_error m \<in> set (emitted c (streamClaudeOutput parse child sid))
        \<longrightarrow> stdout_error child = Some m)"
proof -
  have "SSE_error m \<in> set (emitted c (streamClaudeOutput parse child sid))
        \<Longrightarrow> stdout_error child = Some m"
    using emitted_subset [of c parse child sid] error_in_try_block [of m parse child] by auto
  then show ?thesis
    by (simp add: read_all_stream read_then_stop_stream
        ordered_tail_try_block ordered_tail_take_try_block del: read_then_stop.simps take_Suc_Cons)
qed


theorem streamClaudeOutput_event_order_witness:
  "SSE_error ''read ECONNRESET''
     \<in> set (emitted ReadAll (streamClaudeOutput JSON_parse failing_child ''new''))
   \<and> stdout_error failing_child = Some ''read ECONNRESET''
   \<and> ordered_stream ''new'' (emitted ReadAll (streamClaudeOutput JSON_parse failing_child ''new''))"
proof -
  have mem: "SSE_error ''read ECONNRESET''
     \<in> set (emitted ReadAll (streamClaudeOutput JSON_parse failing_child ''new''))"
    by code_simp
  note order = streamClaudeOutput_event_order
    [where sid = "''new''" and parse = JSON_parse and child = failing_child
       and m = "''read ECONNRESET''" and c = ReadAll]
  from order mem have "stdout_error failing_child = Some ''read ECONNRESET''"
    by blast
  moreover from order
  have "ordered_stream ''new'' (emitted ReadAll (streamClaudeOutput JSON_parse failing_child ''new''))"
    by blast
  ultimately show ?thesis using mem by blast
qed

text \<open>
  C4. The end event is not always the final event. \<open>yield start\<close> stands before the
  \<open>try\<close> statement whose \<open>finally\<close> yields the end event, so for a consumer that stops
  right after the start event the generator completes without an end event: the stream
  is the start event alone, which is not of the shape start, data*, error?, end. The
  same consumer stopping one event later does get the end event.
\<close>

theorem stop_after_start_has_no_end:
  "emitted (StopAfter 1) (streamClaudeOutput JSON_parse unbroken_child ''new'') = [SSE_start ''new'']
   \<and> \<not> ordered_stream ''new''
         (emitted (StopAfter 1) (streamClaudeOutput JSON_parse unbroken_child ''new''))
   \<and> emitted (StopAfter 2) (streamClaudeOutput JSON_parse unbroken_child ''new'') =
       [SSE_start ''new'',
        SSE_data (JObject [(''type'', JString ''unknown''), (''x'', JNumber 1)]),
        SSE_end ''new'']"
  by code_simp

subsection \<open>Chunk boundaries\<close>

text \<open>
  When every chunk ends with a newline, the chunks give the events of their
  concatenation: then, and only through that, the boundaries of the chunks do not matter.
\<close>

lemma split_acc_append:
  "split_acc sep acc (xs @ sep # ys) = split_acc sep acc xs @ split_acc sep [] ys"
  by (induction xs arbitrary: acc) simp_all

lemma split_line_end: "split sep (xs @ sep # ys) = split sep xs @ split sep ys"
  by (simp add: split_def split_acc_append)

lemma line_loop_append:
  "line_loop parse (ls @ ms) = line_loop parse ls @ line_loop parse ms"
  by (induction ls) (simp_all add: Let_def)

lemma line_loop_empty_line: "line_loop parse [[]] = []"
  by (simp add: parseLine_def trim_def)

lemma chunk_loop_whole_lines:
  "chunk_loop parse (map (\<lambda>l. l @ [CHR 0x0A]) ls)
     = line_loop parse (split CHR 0x0A (concat (map (\<lambda>l. l @ [CHR 0x0A]) ls)))"
proof (induction ls)
  case Nil
  then show ?case by (simp add: split_def line_loop_empty_line del: line_loop.simps)
next
  case (Cons l ls)
  have "split CHR 0x0A (l @ [CHR 0x0A]) = split CHR 0x0A l @ [[]]"
    using split_line_end [of "CHR 0x0A" l "[]"] by (simp add: split_def)
  then show ?case
    using Cons split_line_end [of "CHR 0x0A" l "concat (map (\<lambda>l. l @ [CHR 0x0A]) ls)"]
    by (simp add: line_loop_append line_loop_empty_line del: line_loop.simps)
qed

text \<open>
  C1. The transcoder splits every chunk on its own and keeps no partial line. The same
  text, delivered unbroken and delivered in three chunks that end inside a line, gives
  different events: each piece of a broken line is sent as a plain text of its own.
\<close>

theorem chunk_boundary_changes_events:
  "concat (stdout chunked_child) = concat (stdout unbroken_child)
   \<and> emitted ReadAll (streamClaudeOutput JSON_parse unbroken_child ''new'') =
       [SSE_start ''new'',
        SSE_data (JObject [(''type'', JString ''unknown''), (''x'', JNumber 1)]),
        SSE_data (JString ''plain text''),
        SSE_end ''new'']
   \<and> emitted ReadAll (streamClaudeOutput JSON_parse chunked_child ''new'') =
       [SSE_start ''new'',
        SSE_data (JString unknown_line_head),
        SSE_data (JString unknown_line_rest),
        SSE_data (JString ''pla''),
        SSE_data (JString ''in text''),
        SSE_end ''new'']"
  by code_simp

subsection \<open>Assistant messages of plain text\<close>







subsection \<open>Standard error\<close>

text \<open>
  C10. What the child writes to standard error changes no event of the stream, for
  every consumer; a child with no standard output and no read error gives the start
  event and the end event, whatever it wrote to standard error.
\<close>

theorem stderr_gives_no_event:
  "emitted c (streamClaudeOutput parse (child\<lparr>stderr := err\<rparr>) sid)
     = emitted c (streamClaudeOutput parse child sid)
   \<and> (stdout child = [] \<and> stdout_error child = None
        \<longrightarrow> emitted ReadAll (streamClaudeOutput parse child sid) = [SSE_start sid, SSE_end sid])"
  by (simp add: streamClaudeOutput_def try_block_def read_all_SuspendedStart)

theorem stderr_gives_no_event_witness:
  "stdout stderr_only_child = [] \<and> stdout_error stderr_only_child = None
   \<and> stderr stderr_only_child \<noteq> []
   \<and> emitted ReadAll (streamClaudeOutput JSON_parse stderr_only_child ''new'')
       = [SSE_start ''new'', SSE_end ''new'']"
proof -
  have a: "stdout stderr_only_child = []" by (simp add: stderr_only_child_def)
  have b: "stdout_error stderr_only_child = None" by (simp add: stderr_only_child_def)
  have c: "stderr stderr_only_child \<noteq> []" by (simp add: stderr_only_child_def)
  from stderr_gives_no_event
    [where c = ReadAll and parse = JSON_parse and child = stderr_only_child and sid = "''new''"] a b
  have "emitted ReadAll (streamClaudeOutput JSON_parse stderr_only_child ''new'')
       = [SSE_start ''new'', SSE_end ''new'']"
    by blast
  with a b c show ?thesis by blast
qed

section \<open>Properties of the concurrency limiter\<close>

subsection \<open>What processNext, settle and reject_all leave unchanged\<close>

lemma processNext_induct_inv:
  assumes step: "\<And>s task rest. P s \<Longrightarrow> queue s = task # rest \<Longrightarrow> active s < maxConcurrent s \<Longrightarrow>
            P (s\<lparr>queue := rest, timers := (timers s)(task_id task := None),
                 active := active s + 1,
                 microtask_queue := microtask_queue s @ [Begin (task_id task)]\<rparr>)"
    and "P s"
  shows "P (processNext s)"
  using assms(2)
proof (induction s rule: processNext.induct)
  case (1 s)
  show ?case
  proof (cases "queue s")
    case Nil
    then show ?thesis using 1 by (simp add: processNext.simps [of s])
  next
    case (Cons task rest)
    show ?thesis
    proof (cases "active s < maxConcurrent s")
      case True
      have "P (s\<lparr>queue := rest, timers := (timers s)(task_id task := None),
                 active := active s + 1,
                 microtask_queue := microtask_queue s @ [Begin (task_id task)]\<rparr>)"
        using step [OF "1.prems" Cons True] .
      from "1.IH" [OF Cons True this] show ?thesis
        using Cons True by (simp add: processNext.simps [of s])
    next
      case False
      then show ?thesis using 1 Cons by (simp add: processNext.simps [of s])
    qed
  qed
qed


lemma settle_frame [simp]:
  "active (settle j out s) = active s"
  "maxConcurrent (settle j out s) = maxConcurrent s"
  "queue (settle j out s) = queue s"
  "defaultTimeout (settle j out s) = defaultTimeout s"
  "calls (settle j out s) = calls s"
  "timers (settle j out s) = timers s"
  "microtask_queue (settle j out s) = microtask_queue s"
  "direct (settle j out s) = direct s"
  "promoted (settle j out s) = promoted s"
  "started (settle j out s) = started s"
  "finished (settle j out s) = finished s"
  by (simp_all add: settle_def split: option.splits)

lemma settled_settle:
  "settled (settle j out s) i = (if i = j \<and> settled s j = None then Some out else settled s i)"
  by (simp add: settle_def split: option.splits)

lemma reject_all_frame [simp]:
  "active (reject_all ts s) = active s"
  "maxConcurrent (reject_all ts s) = maxConcurrent s"
  "queue (reject_all ts s) = queue s"
  "defaultTimeout (reject_all ts s) = defaultTimeout s"
  "calls (reject_all ts s) = calls s"
  "microtask_queue (reject_all ts s) = microtask_queue s"
  "direct (reject_all ts s) = direct s"
  "promoted (reject_all ts s) = promoted s"
  "started (reject_all ts s) = started s"
  "finished (reject_all ts s) = finished s"
  by (induction ts arbitrary: s; simp)+

lemma processNext_unchanged:
  assumes "\<And>s q t a m. f (s\<lparr>queue := q, timers := t, active := a, microtask_queue := m\<rparr>) = f s"
  shows "f (processNext s) = f s"
  by (rule processNext_induct_inv [where P = "\<lambda>s'. f s' = f s"]) (simp_all add: assms)

lemma processNext_frame [simp]:
  "maxConcurrent (processNext s) = maxConcurrent s"
  "defaultTimeout (processNext s) = defaultTimeout s"
  "calls (processNext s) = calls s"
  "direct (processNext s) = direct s"
  "promoted (processNext s) = promoted s"
  "settled (processNext s) = settled s"
  "started (processNext s) = started s"
  "finished (processNext s) = finished s"
  by (rule processNext_unchanged; simp)+

lemma callback_ids_append [simp]:
  "callback_ids (xs @ ys) = callback_ids xs @ callback_ids ys"
  by (induction xs rule: callback_ids.induct) simp_all

lemma continuation_ids_append [simp]:
  "continuation_ids (xs @ ys) = continuation_ids xs @ continuation_ids ys"
  by (induction xs rule: continuation_ids.induct) simp_all


lemma processNext_releasing [simp]: "releasing (processNext s) = releasing s"
  by (rule processNext_induct_inv [where P = "\<lambda>s'. releasing s' = releasing s"])
     (simp_all add: releasing_def)

lemmas ids_defs = ids_inv_def known_ids_def queued_ids_def microtasks_def releasing_def

lemmas promise_defs = promise_inv_def known_ids_def queued_ids_def microtasks_def

lemma new_limiter_inv: "limiter_inv (new_limiter m t)"
  by (simp add: limiter_inv_def count_inv_def ids_defs promise_inv_def new_limiter_def)

subsection \<open>The counters\<close>

lemma promote_count:
  "count_inv s \<Longrightarrow> count_inv (s\<lparr>queue := rest, timers := tm,
                 active := active s + 1, microtask_queue := microtask_queue s @ [k]\<rparr>)"
  by (simp add: count_inv_def)

lemma processNext_count: "count_inv s \<Longrightarrow> count_inv (processNext s)"
  by (rule processNext_induct_inv [where P = count_inv]) (rule promote_count)

lemma settle_count [simp]: "count_inv (settle j out s) = count_inv s"
  by (simp add: count_inv_def)

lemma length_remove1_mem: "j \<in> set xs \<Longrightarrow> Suc (length (remove1 j xs)) = length xs"
  using length_pos_if_in_set [of j xs] by (simp add: length_remove1)

lemma job_finally_count:
  "count_inv (x\<lparr>active := active x - 1\<rparr>) \<Longrightarrow> count_inv (job_finally x)"
  by (simp add: job_finally_def processNext_count)

lemma run_microtask_count:
  assumes "count_inv s" "microtask_queue s = m # ms"
  shows "count_inv (run_microtask m (s\<lparr>microtask_queue := ms\<rparr>))"
proof (cases m)
  case (Begin j)
  then show ?thesis using assms by (simp add: begin_promoted_def count_inv_def)
next
  case (ResumeDirect j ok)
  have "count_inv (job_finally (s\<lparr>microtask_queue := ms\<rparr>))"
    by (rule job_finally_count) (use assms in \<open>simp add: count_inv_def\<close>)
  then show ?thesis using ResumeDirect by (simp add: resume_direct_def)
next
  case (ResumePromoted j ok)
  have "count_inv (job_finally (settle j (job_outcome ok) (s\<lparr>microtask_queue := ms\<rparr>)))"
    by (rule job_finally_count) (use assms in \<open>simp add: count_inv_def\<close>)
  then show ?thesis using ResumePromoted by (simp add: resume_promoted_def)
qed

lemma step_count:
  assumes "count_inv s" "step e s = Some s'"
  shows "count_inv s'"
proof (cases e)
  case (Run timeout now)
  then show ?thesis using assms
    by (auto simp: run_def executeDirect_def enqueue_def Let_def count_inv_def)
next
  case Microtask
  then show ?thesis using assms run_microtask_count by (auto split: list.splits)
next
  case (Finish j ok)
  show ?thesis
  proof (cases "j \<in> set (direct s)")
    case True
    with assms(1) have "count_inv (body_settles_direct j ok s)"
      using length_remove1_mem [OF True] by (simp add: count_inv_def body_settles_direct_def)
    then show ?thesis using assms(2) Finish True by auto
  next
    case False
    with assms(2) Finish have p: "j \<in> set (promoted s)" by (auto split: if_splits)
    with assms(1) have "count_inv (body_settles_promoted j ok s)"
      using length_remove1_mem [OF p] by (simp add: count_inv_def body_settles_promoted_def)
    then show ?thesis using assms(2) Finish False p by auto
  qed
next
  case (TimerFires j)
  then show ?thesis using assms
    by (auto simp: timer_callback_def count_inv_def split: option.splits)
next
  case (SetMaxConcurrent maxc)
  from assms(1) have "count_inv (s\<lparr>maxConcurrent := maxc\<rparr>)" by (simp add: count_inv_def)
  then show ?thesis using assms(2) SetMaxConcurrent
    by (auto simp: setMaxConcurrent_def processNext_count)
next
  case (SetDefaultTimeout timeout)
  then show ?thesis using assms by (auto simp: setDefaultTimeout_def count_inv_def)
next
  case Clear
  then show ?thesis using assms by (auto simp: clear_def count_inv_def)
qed


subsection \<open>The identifiers\<close>

lemma remove_task_filter:
  "distinct (map task_id q) \<Longrightarrow> remove_task j q = filter (\<lambda>t. task_id t \<noteq> j) q"
proof (induction q)
  case Nil
  then show ?case by simp
next
  case (Cons t q)
  have "task_id t = j \<Longrightarrow> filter (\<lambda>t. task_id t \<noteq> j) q = q"
    using Cons.prems by (intro filter_True) (auto simp: image_iff)
  then show ?case using Cons by auto
qed

lemma promote_ids:
  "ids_inv s \<Longrightarrow> queue s = task # rest \<Longrightarrow>
     ids_inv (s\<lparr>queue := rest, timers := tm, active := a,
        microtask_queue := microtask_queue s @ [Begin (task_id task)]\<rparr>)"
  by (auto simp: ids_defs)

lemma processNext_ids: "ids_inv s \<Longrightarrow> ids_inv (processNext s)"
  by (rule processNext_induct_inv [where P = ids_inv]) (rule promote_ids)

lemma ids_inv_settle [simp]: "ids_inv (settle j out s) = ids_inv s"
  by (simp add: ids_defs)

lemma ids_inv_upd [simp]:
  "ids_inv (s\<lparr>active := a\<rparr>) = ids_inv s"
  "ids_inv (s\<lparr>finished := f\<rparr>) = ids_inv s"
  by (simp_all add: ids_defs)

lemma run_ids: "ids_inv s \<Longrightarrow> ids_inv (run timeout now s)"
  by (auto simp: run_def executeDirect_def enqueue_def Let_def ids_defs
        less_Suc_eq ball_Un image_iff)

lemma body_settles_direct_ids:
  "ids_inv s \<Longrightarrow> j \<in> set (direct s) \<Longrightarrow> ids_inv (body_settles_direct j ok s)"
  by (auto simp: body_settles_direct_def ids_defs dest: set_remove1_subset [THEN subsetD])

lemma body_settles_promoted_ids:
  "ids_inv s \<Longrightarrow> j \<in> set (promoted s) \<Longrightarrow> ids_inv (body_settles_promoted j ok s)"
  by (auto simp: body_settles_promoted_def ids_defs dest: set_remove1_subset [THEN subsetD])

lemma begin_promoted_ids:
  "ids_inv s \<Longrightarrow> microtask_queue s = Begin j # ms \<Longrightarrow>
     ids_inv (begin_promoted j (s\<lparr>microtask_queue := ms\<rparr>))"
  by (auto simp: begin_promoted_def ids_defs)

lemma resume_ids:
  assumes "ids_inv s"
    and "microtask_queue s = ResumeDirect j ok # ms \<or> microtask_queue s = ResumePromoted j ok # ms"
  shows "ids_inv (s\<lparr>microtask_queue := ms\<rparr>)" "j \<in> set (started s)"
  using assms by (auto simp: ids_defs)

lemma job_finally_ids: "ids_inv x \<Longrightarrow> ids_inv (job_finally x)"
  by (simp add: job_finally_def processNext_ids)

lemma run_microtask_ids:
  assumes "ids_inv s" "microtask_queue s = m # ms"
  shows "ids_inv (run_microtask m (s\<lparr>microtask_queue := ms\<rparr>))"
proof (cases m)
  case (Begin j)
  then show ?thesis using assms begin_promoted_ids by simp
next
  case (ResumeDirect j ok)
  with assms have "ids_inv (s\<lparr>microtask_queue := ms\<rparr>)" using resume_ids(1) by blast
  then show ?thesis using ResumeDirect by (simp add: resume_direct_def job_finally_ids)
next
  case (ResumePromoted j ok)
  with assms have "ids_inv (s\<lparr>microtask_queue := ms\<rparr>)" using resume_ids(1) by blast
  then have "ids_inv (settle j (job_outcome ok) (s\<lparr>microtask_queue := ms\<rparr>))" by simp
  from job_finally_ids [OF this] show ?thesis using ResumePromoted
    by (simp add: resume_promoted_def)
qed

lemma timer_callback_ids:
  assumes "ids_inv s"
  shows "ids_inv (timer_callback j timeout (s\<lparr>timers := tm\<rparr>))"
proof -
  from assms have d: "distinct (map task_id (queue s))"
    by (simp add: ids_defs)
  from assms have "ids_inv (s\<lparr>queue := filter (\<lambda>t. task_id t \<noteq> j) (queue s), timers := tm\<rparr>)"
    by (auto simp: ids_defs distinct_map_filter)
  then show ?thesis
    by (simp add: timer_callback_def remove_task_filter [OF d] ids_defs)
qed

lemma setMaxConcurrent_ids: "ids_inv s \<Longrightarrow> ids_inv (setMaxConcurrent maxc s)"
proof -
  assume "ids_inv s"
  then have "ids_inv (s\<lparr>maxConcurrent := maxc\<rparr>)"
    by (simp add: ids_defs)
  then show ?thesis by (simp add: setMaxConcurrent_def processNext_ids)
qed

lemma setDefaultTimeout_ids: "ids_inv s \<Longrightarrow> ids_inv (setDefaultTimeout timeout s)"
  by (simp add: setDefaultTimeout_def ids_defs)

lemma clear_ids: "ids_inv s \<Longrightarrow> ids_inv (clear s)"
  by (auto simp: clear_def ids_defs)

lemma step_ids:
  assumes "ids_inv s" "step e s = Some s'"
  shows "ids_inv s'"
proof (cases e)
  case (Run timeout now)
  then show ?thesis using assms run_ids by auto
next
  case Microtask
  then show ?thesis using assms run_microtask_ids by (auto split: list.splits)
next
  case (Finish j ok)
  then show ?thesis using assms body_settles_direct_ids body_settles_promoted_ids
    by (auto split: if_splits)
next
  case (TimerFires j)
  then show ?thesis using assms timer_callback_ids by (auto split: option.splits)
next
  case (SetMaxConcurrent maxc)
  then show ?thesis using assms setMaxConcurrent_ids by auto
next
  case (SetDefaultTimeout timeout)
  then show ?thesis using assms setDefaultTimeout_ids by auto
next
  case Clear
  then show ?thesis using assms clear_ids by auto
qed


subsection \<open>The promises\<close>

lemma promote_promise:
  assumes i: "ids_inv s" and p: "promise_inv s" and q: "queue s = task # rest"
  shows "promise_inv (s\<lparr>queue := rest, timers := (timers s)(task_id task := None),
                 active := a, microtask_queue := microtask_queue s @ [Begin (task_id task)]\<rparr>)"
proof -
  from i q have fresh: "task_id task \<notin> task_id ` set rest"
    by (simp add: ids_defs)
  from p q have dom: "dom (timers s) = insert (task_id task) (task_id ` set rest)"
    by (simp add: promise_inv_def queued_ids_def)
  have dom': "dom ((timers s)(task_id task := None)) = task_id ` set rest"
    using dom fresh by auto
  from p q have rest: "\<forall>j \<in> task_id ` set rest. settled s j = None"
    "\<forall>j. calls s \<le> j \<longrightarrow> settled s j = None"
    "\<forall>j t. settled s j = Some (Rejected (TimeoutError t)) \<longrightarrow>
        j \<noteq> task_id task \<and> j \<notin> task_id ` set rest
        \<and> j \<notin> set (callback_ids (microtask_queue s)) \<and> j \<notin> set (started s)"
    by (simp_all add: promise_defs)
  show ?thesis
    unfolding promise_inv_def using dom' rest
    by (simp add: known_ids_def queued_ids_def microtasks_def)
qed

lemma processNext_both:
  "ids_inv s \<and> promise_inv s \<Longrightarrow> ids_inv (processNext s) \<and> promise_inv (processNext s)"
  by (rule processNext_induct_inv [where P = "\<lambda>s. ids_inv s \<and> promise_inv s"])
     (simp_all add: promote_ids promote_promise)

lemma processNext_promise: "ids_inv s \<Longrightarrow> promise_inv s \<Longrightarrow> promise_inv (processNext s)"
  using processNext_both by blast

lemma run_promise: "ids_inv s \<Longrightarrow> promise_inv s \<Longrightarrow> promise_inv (run timeout now s)"
  unfolding promise_inv_def ids_inv_def run_def executeDirect_def enqueue_def Let_def
    known_ids_def queued_ids_def microtasks_def
  by (auto simp: ball_Un image_iff)

lemma begin_promoted_promise:
  "promise_inv s \<Longrightarrow> microtask_queue s = Begin j # ms \<Longrightarrow>
     promise_inv (begin_promoted j (s\<lparr>microtask_queue := ms\<rparr>))"
  by (auto simp: begin_promoted_def promise_defs)

lemma settle_job_promise:
  assumes i: "ids_inv s" and p: "promise_inv s" and j: "j \<in> set (started s)"
  shows "promise_inv (settle j (job_outcome ok) s)"
proof -
  from i j have nq: "j \<notin> set (queued_ids s)" and lt: "j < calls s"
    by (auto simp: ids_inv_def known_ids_def)
  show ?thesis
    using p nq lt
    unfolding promise_inv_def
    by (auto simp: settled_settle known_ids_def queued_ids_def microtasks_def job_outcome_def)
qed

lemma promise_inv_running [simp]:
  "promise_inv (s\<lparr>direct := d\<rparr>) = promise_inv s"
  "promise_inv (s\<lparr>promoted := p\<rparr>) = promise_inv s"
  "promise_inv (s\<lparr>finished := f\<rparr>) = promise_inv s"
  "promise_inv (s\<lparr>active := a\<rparr>) = promise_inv s"
  by (simp_all add: promise_defs)

lemma promise_inv_microtask_queue:
  "callback_ids q = callback_ids (microtask_queue s) \<Longrightarrow>
     promise_inv (s\<lparr>microtask_queue := q\<rparr>) = promise_inv s"
  by (simp add: promise_defs)

lemma body_settles_promise:
  "promise_inv (body_settles_direct j ok s) = promise_inv s"
  "promise_inv (body_settles_promoted j ok s) = promise_inv s"
  by (simp_all add: body_settles_direct_def body_settles_promoted_def promise_defs)

lemma job_finally_both:
  assumes "ids_inv x" "promise_inv x"
  shows "ids_inv (job_finally x) \<and> promise_inv (job_finally x)"
  unfolding job_finally_def
  by (rule processNext_both) (use assms in simp)

lemma run_microtask_promise:
  assumes i: "ids_inv s" and p: "promise_inv s" and q: "microtask_queue s = m # ms"
  shows "promise_inv (run_microtask m (s\<lparr>microtask_queue := ms\<rparr>))"
proof (cases m)
  case (Begin j)
  then show ?thesis using p q begin_promoted_promise by simp
next
  case (ResumeDirect j ok)
  let ?s1 = "s\<lparr>microtask_queue := ms\<rparr>"
  from i q ResumeDirect have i1: "ids_inv ?s1" and j: "j \<in> set (started s)"
    using resume_ids by blast+
  have p1: "promise_inv ?s1"
    using p q ResumeDirect by (simp add: promise_inv_microtask_queue)
  from job_finally_both [OF i1 p1]
  have i2: "ids_inv (job_finally ?s1)" and p2: "promise_inv (job_finally ?s1)" by blast+
  from j have "j \<in> set (started (job_finally ?s1))" by (simp add: job_finally_def)
  from settle_job_promise [OF i2 p2 this]
  show ?thesis using ResumeDirect by (simp add: resume_direct_def)
next
  case (ResumePromoted j ok)
  let ?s1 = "s\<lparr>microtask_queue := ms\<rparr>"
  from i q ResumePromoted have i1: "ids_inv ?s1" and j: "j \<in> set (started s)"
    using resume_ids by blast+
  have p1: "promise_inv ?s1"
    using p q ResumePromoted by (simp add: promise_inv_microtask_queue)
  from j have "j \<in> set (started ?s1)" by simp
  from settle_job_promise [OF i1 p1 this]
  have p2: "promise_inv (settle j (job_outcome ok) ?s1)" .
  have i2: "ids_inv (settle j (job_outcome ok) ?s1)" using i1 by simp
  from job_finally_both [OF i2 p2]
  show ?thesis using ResumePromoted by (simp add: resume_promoted_def)
qed

lemma timer_callback_promise:
  assumes i: "ids_inv s" and p: "promise_inv s" and t: "timers s j = Some timeout"
  shows "promise_inv (timer_callback j timeout (s\<lparr>timers := (timers s)(j := None)\<rparr>))"
proof -
  from i have d: "distinct (map task_id (queue s))"
    by (simp add: ids_defs)
  from p t have jq: "j \<in> set (queued_ids s)" by (auto simp: promise_inv_def)
  with i have nm: "j \<notin> set (callback_ids (microtask_queue s))" and ns: "j \<notin> set (started s)"
    and lt: "j < calls s"
    by (auto simp: ids_inv_def known_ids_def microtasks_def)
  from p jq have pend: "settled s j = None" by (simp add: promise_inv_def)
  have ids: "task_id ` set (filter (\<lambda>t. task_id t \<noteq> j) (queue s)) = set (queued_ids s) - {j}"
    by (auto simp: queued_ids_def)
  show ?thesis
    using p nm ns pend lt
    unfolding promise_inv_def timer_callback_def
    by (auto simp: remove_task_filter [OF d] settled_settle known_ids_def queued_ids_def
          microtasks_def image_iff)
qed

lemma setMaxConcurrent_promise:
  assumes "ids_inv s" "promise_inv s"
  shows "promise_inv (setMaxConcurrent maxc s)"
proof -
  have "ids_inv (s\<lparr>maxConcurrent := maxc\<rparr>)" using assms(1)
    by (simp add: ids_defs)
  moreover have "promise_inv (s\<lparr>maxConcurrent := maxc\<rparr>)" using assms(2)
    by (simp add: promise_defs)
  ultimately show ?thesis by (simp add: setMaxConcurrent_def processNext_promise)
qed

lemma setDefaultTimeout_promise: "promise_inv s \<Longrightarrow> promise_inv (setDefaultTimeout timeout s)"
  by (simp add: setDefaultTimeout_def promise_defs)

lemma timers_reject_all:
  "timers (reject_all ts s) = (\<lambda>i. if i \<in> task_id ` set ts then None else timers s i)"
  by (induction ts arbitrary: s) (auto simp: fun_eq_iff)

lemma settled_reject_all:
  "settled (reject_all ts s) i =
     (if i \<in> task_id ` set ts \<and> settled s i = None then Some (Rejected ShutdownError)
      else settled s i)"
  by (induction ts arbitrary: s) (auto simp: settled_settle)

lemma clear_promise: "ids_inv s \<Longrightarrow> promise_inv s \<Longrightarrow> promise_inv (clear s)"
  unfolding promise_inv_def clear_def ids_inv_def
  by (auto simp: timers_reject_all settled_reject_all known_ids_def queued_ids_def
      microtasks_def dom_def ball_Un image_iff split: if_splits)

lemma step_promise:
  assumes "ids_inv s" "promise_inv s" "step e s = Some s'"
  shows "promise_inv s'"
proof (cases e)
  case (Run timeout now)
  then show ?thesis using assms run_promise by auto
next
  case Microtask
  then show ?thesis using assms run_microtask_promise by (auto split: list.splits)
next
  case (Finish j ok)
  then show ?thesis using assms by (auto simp: body_settles_promise split: if_splits)
next
  case (TimerFires j)
  then show ?thesis using assms timer_callback_promise by (auto split: option.splits)
next
  case (SetMaxConcurrent maxc)
  then show ?thesis using assms setMaxConcurrent_promise by auto
next
  case (SetDefaultTimeout timeout)
  then show ?thesis using assms setDefaultTimeout_promise by auto
next
  case Clear
  then show ?thesis using assms clear_promise by auto
qed

lemma step_inv: "limiter_inv s \<Longrightarrow> step e s = Some s' \<Longrightarrow> limiter_inv s'"
  unfolding limiter_inv_def using step_count step_ids step_promise by blast

lemma run_events_inv: "limiter_inv s \<Longrightarrow> run_events es s = Some s' \<Longrightarrow> limiter_inv s'"
proof (induction es arbitrary: s)
  case Nil
  then show ?case by simp
next
  case (Cons e es)
  then show ?case by (auto split: option.splits dest: step_inv)
qed

subsection \<open>The capacity\<close>







lemma maxConcurrent_run_microtask [simp]:
  "maxConcurrent (run_microtask m s) = maxConcurrent s"
  by (cases m) (simp_all add: begin_promoted_def resume_direct_def resume_promoted_def
      job_finally_def)










subsection \<open>Timeout of a waiting job\<close>

lemma settled_run_microtask:
  "settled s j = Some out \<Longrightarrow> settled (run_microtask m s) j = Some out"
  by (cases m)
     (auto simp: begin_promoted_def resume_direct_def resume_promoted_def job_finally_def
       settled_settle)

lemma settled_step:
  "step e s = Some s' \<Longrightarrow> settled s j = Some out \<Longrightarrow> settled s' j = Some out"
  by (cases e)
     (auto simp: run_def executeDirect_def enqueue_def Let_def settled_run_microtask
       body_settles_direct_def body_settles_promoted_def timer_callback_def
       setMaxConcurrent_def setDefaultTimeout_def clear_def settled_settle settled_reject_all
       split: list.splits if_splits option.splits)

lemma settled_run_events:
  "run_events es s = Some s' \<Longrightarrow> settled s j = Some out \<Longrightarrow> settled s' j = Some out"
proof (induction es arbitrary: s)
  case Nil
  then show ?case by simp
next
  case (Cons e es)
  then show ?case by (auto split: option.splits dest: settled_step)
qed

lemma timers_processNext:
  "timers s j = None \<or> timers s j = Some t \<Longrightarrow>
     timers (processNext s) j = None \<or> timers (processNext s) j = Some t"
  by (rule processNext_induct_inv
        [where P = "\<lambda>s. timers s j = None \<or> timers s j = Some t"]) auto

lemma timer_of_job_finally: "timer_of j t x \<Longrightarrow> timer_of j t (job_finally x)"
  using timers_processNext [of "x\<lparr>active := active x - 1\<rparr>" j t]
  by (simp add: timer_of_def job_finally_def)

lemma timer_of_settle [simp]: "timer_of j t (settle i out x) = timer_of j t x"
  by (simp add: timer_of_def)

lemma timer_of_ops:
  "timer_of j t s \<Longrightarrow> timer_of j t (run timeout now s)"
  "timer_of j t s \<Longrightarrow> timer_of j t (run_microtask m (s\<lparr>microtask_queue := ms\<rparr>))"
  "timer_of j t s \<Longrightarrow> timer_of j t (body_settles_direct i ok s)"
  "timer_of j t s \<Longrightarrow> timer_of j t (body_settles_promoted i ok s)"
  "timer_of j t s \<Longrightarrow> timer_of j t (timer_callback i t' (s\<lparr>timers := (timers s)(i := None)\<rparr>))"
  "timer_of j t s \<Longrightarrow> timer_of j t (setMaxConcurrent maxc s)"
  "timer_of j t s \<Longrightarrow> timer_of j t (setDefaultTimeout t' s)"
  "timer_of j t s \<Longrightarrow> timer_of j t (clear s)"
proof -
  assume a: "timer_of j t s"
  show "timer_of j t (run timeout now s)"
    using a by (auto simp: timer_of_def run_def executeDirect_def enqueue_def Let_def)
  from a have q: "timer_of j t (s\<lparr>microtask_queue := ms\<rparr>)"
    by (simp add: timer_of_def)
  then have "timer_of j t (settle k out (s\<lparr>microtask_queue := ms\<rparr>))" for k out
    by simp
  with q show "timer_of j t (run_microtask m (s\<lparr>microtask_queue := ms\<rparr>))"
    by (cases m)
       (simp_all add: resume_direct_def resume_promoted_def timer_of_job_finally,
        simp add: timer_of_def begin_promoted_def)
  show "timer_of j t (body_settles_direct i ok s)" "timer_of j t (body_settles_promoted i ok s)"
    using a by (simp_all add: timer_of_def body_settles_direct_def body_settles_promoted_def)
  show "timer_of j t (timer_callback i t' (s\<lparr>timers := (timers s)(i := None)\<rparr>))"
    using a by (auto simp: timer_of_def timer_callback_def)
  show "timer_of j t (setMaxConcurrent maxc s)"
    using a timers_processNext [of "s\<lparr>maxConcurrent := maxc\<rparr>" j t]
    by (auto simp: timer_of_def setMaxConcurrent_def)
  show "timer_of j t (setDefaultTimeout t' s)"
    using a by (simp add: timer_of_def setDefaultTimeout_def)
  show "timer_of j t (clear s)"
    using a by (auto simp: timer_of_def clear_def timers_reject_all)
qed

lemma timer_of_step: "timer_of j t s \<Longrightarrow> step e s = Some s' \<Longrightarrow> timer_of j t s'"
  by (cases e) (auto simp: timer_of_ops split: list.splits option.splits if_splits)

lemma timer_of_run_events:
  "timer_of j t s \<Longrightarrow> run_events es s = Some s' \<Longrightarrow> timer_of j t s'"
proof (induction es arbitrary: s)
  case Nil
  then show ?case by simp
next
  case (Cons e es)
  then show ?case by (auto split: option.splits dest: timer_of_step)
qed


text \<open>
  C3. A call of \<open>run\<close> that finds no free slot is enqueued with its timeout (the
  argument, or the default). If it is still waiting in a later state, its timer is
  armed, and when the timer fires: the promise is rejected with the timeout error that
  carries that timeout; the queue, and so the output of \<open>getQueueInfo\<close>, loses exactly
  this entry; the job has not been started, and in no later state is it started,
  scheduled or queued again, and its promise stays rejected.
\<close>

theorem queued_job_timeout:
  assumes reach: "run_events es0 (new_limiter maxc dt) = Some s0"
    and full: "\<not> active s0 < maxConcurrent s0"
    and later: "run_events es1 (run timeout now s0) = Some s"
    and waiting: "calls s0 \<in> set (queued_ids s)"
  shows "\<exists>s'. step (TimerFires (calls s0)) s = Some s'
      \<and> settled s' (calls s0)
            = Some (Rejected (TimeoutError (case timeout of Some t \<Rightarrow> t | None \<Rightarrow> defaultTimeout s0)))
      \<and> getQueueInfo clock s'
            = getQueueInfo clock (s\<lparr>queue := filter (\<lambda>task. task_id task \<noteq> calls s0) (queue s)\<rparr>)
      \<and> calls s0 \<notin> set (queued_ids s')
      \<and> calls s0 \<notin> set (started s')
      \<and> (\<forall>es2 s2. run_events es2 s' = Some s2 \<longrightarrow>
             settled s2 (calls s0)
               = Some (Rejected (TimeoutError (case timeout of Some t \<Rightarrow> t | None \<Rightarrow> defaultTimeout s0)))
             \<and> calls s0 \<notin> set (queued_ids s2)
             \<and> calls s0 \<notin> set (microtasks s2)
             \<and> calls s0 \<notin> set (started s2))"
proof -
  define j where "j = calls s0"
  define tmo where "tmo = (case timeout of Some t \<Rightarrow> t | None \<Rightarrow> defaultTimeout s0)"
  have inv0: "limiter_inv s0" using run_events_inv [OF new_limiter_inv reach] .
  have "step (Run timeout now) s0 = Some (run timeout now s0)" by simp
  from step_inv [OF inv0 this] have inv1: "limiter_inv (run timeout now s0)" .
  have t1: "timer_of j tmo (run timeout now s0)"
    using full by (simp add: timer_of_def run_def enqueue_def Let_def j_def tmo_def split: option.splits)
  have inv: "limiter_inv s" using run_events_inv [OF inv1 later] .
  have t: "timer_of j tmo s" using timer_of_run_events [OF t1 later] .
  from inv have i: "ids_inv s" and p: "promise_inv s" by (simp_all add: limiter_inv_def)
  from waiting have jq: "j \<in> set (queued_ids s)" by (simp add: j_def)
  with p have "j \<in> dom (timers s)" by (simp add: promise_inv_def)
  with t have armed: "timers s j = Some tmo" by (auto simp: timer_of_def)
  define s' where "s' = timer_callback j tmo (s\<lparr>timers := (timers s)(j := None)\<rparr>)"
  have st: "step (TimerFires j) s = Some s'" using armed by (simp add: s'_def)
  from p jq have pend: "settled s j = None" by (simp add: promise_inv_def)
  then have rej: "settled s' j = Some (Rejected (TimeoutError tmo))"
    by (simp add: s'_def timer_callback_def settled_settle)
  from i have d: "distinct (map task_id (queue s))"
    by (simp add: ids_inv_def known_ids_def queued_ids_def)
  have q': "queue s' = filter (\<lambda>task. task_id task \<noteq> j) (queue s)"
    by (simp add: s'_def timer_callback_def remove_task_filter [OF d])
  then have info: "getQueueInfo clock s'
      = getQueueInfo clock (s\<lparr>queue := filter (\<lambda>task. task_id task \<noteq> j) (queue s)\<rparr>)"
    by (simp add: getQueueInfo_def)
  from q' have nq: "j \<notin> set (queued_ids s')" by (auto simp: queued_ids_def)
  from i jq have "j \<notin> set (started s)" by (auto simp: ids_inv_def known_ids_def)
  then have ns: "j \<notin> set (started s')" by (simp add: s'_def timer_callback_def)
  have inv': "limiter_inv s'" using step_inv [OF inv st] .
  have after: "settled s2 j = Some (Rejected (TimeoutError tmo))
             \<and> j \<notin> set (queued_ids s2) \<and> j \<notin> set (microtasks s2) \<and> j \<notin> set (started s2)"
    if r: "run_events es2 s' = Some s2" for es2 s2
  proof -
    have r2: "settled s2 j = Some (Rejected (TimeoutError tmo))"
      using settled_run_events [OF r rej] .
    have "promise_inv s2" using run_events_inv [OF inv' r] by (simp add: limiter_inv_def)
    with r2 have "j \<notin> set (known_ids s2)" by (auto simp: promise_inv_def)
    with r2 show ?thesis by (simp add: known_ids_def)
  qed
  show ?thesis
    using st rej info nq ns after unfolding j_def [symmetric] tmo_def [symmetric] by blast
qed


theorem queued_job_timeout_witness:
  "\<exists>s0 s s' s2.
      run_events [Run None 0] (new_limiter 1 120000) = Some s0
    \<and> \<not> active s0 < maxConcurrent s0
    \<and> run_events [Run None 20] (run (Some 5000) 10 s0) = Some s
    \<and> calls s0 \<in> set (queued_ids s)
    \<and> step (TimerFires (calls s0)) s = Some s'
    \<and> settled s' (calls s0) = Some (Rejected (TimeoutError 5000))
    \<and> calls s0 \<notin> set (queued_ids s')
    \<and> run_events [Finish 0 True, Microtask] s' = Some s2
    \<and> calls s0 \<notin> set (started s2)"
proof -
  have "case run_events [Run None 0] (new_limiter 1 120000) of
          None \<Rightarrow> False
        | Some s0 \<Rightarrow>
            \<not> active s0 < maxConcurrent s0
            \<and> (case run_events [Run None 20] (run (Some 5000) 10 s0) of
                   None \<Rightarrow> False
                 | Some s \<Rightarrow>
                     calls s0 \<in> set (queued_ids s)
                     \<and> (case step (TimerFires (calls s0)) s of
                            None \<Rightarrow> False
                          | Some s' \<Rightarrow> run_events [Finish 0 True, Microtask] s' \<noteq> None))"
    by code_simp
  then obtain s0 s s1 s2 where
    a: "run_events [Run None 0] (new_limiter 1 120000) = Some s0"
    and b: "\<not> active s0 < maxConcurrent s0"
    and c: "run_events [Run None 20] (run (Some 5000) 10 s0) = Some s"
    and d: "calls s0 \<in> set (queued_ids s)"
    and e: "step (TimerFires (calls s0)) s = Some s1"
    and f: "run_events [Finish 0 True, Microtask] s1 = Some s2"
    by (auto split: option.splits)
  from queued_job_timeout [OF a b c d, of 0] e
  have g: "settled s1 (calls s0) = Some (Rejected (TimeoutError 5000))"
    and h: "calls s0 \<notin> set (queued_ids s1)"
    and k: "\<forall>es2 s2. run_events es2 s1 = Some s2 \<longrightarrow> calls s0 \<notin> set (started s2)"
    by auto
  from k f have "calls s0 \<notin> set (started s2)" by blast
  with a b c d e f g h show ?thesis by blast
qed

section \<open>Properties of the launcher and the request handler\<close>

lemma forward_writes: "list_all is_write (fst (forward env n g))"
proof (induction env n g rule: forward.induct)
  case (1 env n g)
  show ?case
  proof (cases "gen_next g")
    case (Pair ev g')
    show ?thesis
    proof (cases ev)
      case None
      then show ?thesis using Pair by (simp add: forward.simps [of env n g])
    next
      case (Some event)
      show ?thesis
      proof (cases "writableEnded env n")
        case True
        then show ?thesis using Pair Some by (simp add: forward.simps [of env n g])
      next
        case False
        show ?thesis
        proof (cases "write_throws env n")
          case None
          from "1.IH" [OF Pair [symmetric] _ False None] Some Pair
          have "list_all is_write (fst (forward env (Suc n) g'))" by simp
          then show ?thesis using Pair Some False None
            by (auto simp: forward.simps [of env n g] split: prod.splits)
        next
          case (Some m)
          then show ?thesis using Pair \<open>ev = Some event\<close> False
            by (simp add: forward.simps [of env n g])
        qed
      qed
    qed
  qed
qed

lemma write_not_kill: "is_write e \<Longrightarrow> \<not> is_kill e"
  by (cases e) simp_all

lemma no_kill_in_writes: "list_all is_write ws \<Longrightarrow> filter is_kill ws = []"
  by (induction ws) (auto elim: is_write.elims)

lemma stream_to_client_kill:
  "filter is_kill (stream_to_client parse env session) = [KillChild SIGTERM]"
proof -
  obtain ws r where f: "forward env 0
      (streamClaudeOutput parse (child_output env) (case session of Some s \<Rightarrow> s | None \<Rightarrow> ''new''))
      = (ws, r)"
    by (cases "forward env 0
      (streamClaudeOutput parse (child_output env) (case session of Some s \<Rightarrow> s | None \<Rightarrow> ''new''))")
  have "list_all is_write ws" using forward_writes [of env 0] f by (metis fst_conv)
  then have "filter is_kill ws = []" by (rule no_kill_in_writes)
  then show ?thesis using f
    by (cases r) (simp_all add: stream_to_client_def killClaudeProcess_def)
qed


lemma stream_to_client_no_write_after_kill:
  "list_all (\<lambda>e. \<not> is_write e)
     (dropWhile (\<lambda>e. \<not> is_kill e) (stream_to_client parse env session))"
proof -
  obtain ws r where f: "forward env 0
      (streamClaudeOutput parse (child_output env) (case session of Some s \<Rightarrow> s | None \<Rightarrow> ''new''))
      = (ws, r)"
    by (cases "forward env 0
      (streamClaudeOutput parse (child_output env) (case session of Some s \<Rightarrow> s | None \<Rightarrow> ''new''))")
  have "list_all is_write ws" using forward_writes [of env 0] f by (metis fst_conv)
  then have nk: "\<forall>e \<in> set ws. \<not> is_kill e"
    by (auto simp: list_all_iff dest: write_not_kill)
  then have "dropWhile (\<lambda>e. \<not> is_kill e) (ws @ rest) = dropWhile (\<lambda>e. \<not> is_kill e) rest" for rest
    by (simp add: dropWhile_append)
  then show ?thesis using f
    by (cases r) (simp_all add: stream_to_client_def killClaudeProcess_def)
qed

lemma forward_no_exception: "write_error env = None \<Longrightarrow> snd (forward env n g) = None"
proof (induction env n g rule: forward.induct)
  case (1 env n g)
  from "1.prems" have nt: "write_throws env n = None" by (simp add: write_throws_def)
  show ?case
  proof (cases "gen_next g")
    case (Pair ev g')
    show ?thesis
    proof (cases ev)
      case None
      then show ?thesis using Pair by (simp add: forward.simps [of env n g])
    next
      case (Some event)
      show ?thesis
      proof (cases "writableEnded env n")
        case True
        then show ?thesis using Pair Some by (simp add: forward.simps [of env n g])
      next
        case False
        from "1.IH" [OF Pair [symmetric] _ False nt "1.prems"] Some Pair
        have "snd (forward env (Suc n) g') = None" by simp
        then show ?thesis using Pair Some False nt
          by (auto simp: forward.simps [of env n g] split: prod.splits)
      qed
    qed
  qed
qed

lemma stream_to_client_normal:
  assumes "write_error env = None" "ended_after env = None"
  shows "\<exists>ws. list_all is_write ws
     \<and> stream_to_client parse env session = ws @ [EndResponse, KillChild SIGTERM]"
proof -
  obtain ws r where f: "forward env 0
      (streamClaudeOutput parse (child_output env) (case session of Some s \<Rightarrow> s | None \<Rightarrow> ''new''))
      = (ws, r)"
    by (cases "forward env 0
      (streamClaudeOutput parse (child_output env) (case session of Some s \<Rightarrow> s | None \<Rightarrow> ''new''))")
  have w: "list_all is_write ws" using forward_writes [of env 0] f by (metis fst_conv)
  have "r = None" using forward_no_exception [OF assms(1), of 0] f by (metis snd_conv)
  then have "stream_to_client parse env session = ws @ [EndResponse, KillChild SIGTERM]"
    using f assms(2) by (simp add: stream_to_client_def killClaudeProcess_def writableEnded_def)
  with w show ?thesis by blast
qed

lemma job_launched:
  assumes "chatRequestSchema_ok body" "spawn_throws env = None" "stdin_error env = None"
  shows "\<exists>cwd args p. handleStreamChat_job parse env body =
     [Spawn cwd args, StdinWrite p, StdinEnd, SetSSEHeaders]
     @ stream_to_client parse env (session_of body)"
  using assms by (simp add: handleStreamChat_job_def spawnClaudeProcess_def Let_def)

text \<open>
  C7 (as amended). When the launcher has returned a child, the job kills it exactly once,
  with SIGTERM, in the \<open>finally\<close> of the streaming loop, on every path out of the loop
  (the stream is read to its end, a write throws, the response is found ended); no
  stream event is forwarded after the kill; and on the normal path the response is ended
  first and the child is killed after that.
\<close>

theorem child_killed_in_finally:
  assumes "chatRequestSchema_ok body" "spawn_throws env = None" "stdin_error env = None"
  shows "filter is_kill (handleStreamChat_job parse env body) = [KillChild SIGTERM]
     \<and> list_all (\<lambda>e. \<not> is_write e)
          (dropWhile (\<lambda>e. \<not> is_kill e) (handleStreamChat_job parse env body))
     \<and> (write_error env = None \<and> ended_after env = None \<longrightarrow>
          take 2 (rev (handleStreamChat_job parse env body)) = [KillChild SIGTERM, EndResponse])"
proof -
  from job_launched [OF assms] obtain cwd args p where j:
    "handleStreamChat_job parse env body =
       [Spawn cwd args, StdinWrite p, StdinEnd, SetSSEHeaders]
       @ stream_to_client parse env (session_of body)"
    by blast
  have a: "filter is_kill (handleStreamChat_job parse env body) = [KillChild SIGTERM]"
    by (simp add: j stream_to_client_kill)
  have b: "list_all (\<lambda>e. \<not> is_write e)
          (dropWhile (\<lambda>e. \<not> is_kill e) (handleStreamChat_job parse env body))"
    by (simp add: j stream_to_client_no_write_after_kill)
  have c: "take 2 (rev (handleStreamChat_job parse env body)) = [KillChild SIGTERM, EndResponse]"
    if "write_error env = None" "ended_after env = None"
  proof -
    from stream_to_client_normal [OF that] obtain ws where
      "stream_to_client parse env (session_of body) = ws @ [EndResponse, KillChild SIGTERM]"
      by blast
    then show ?thesis by (simp add: j)
  qed
  from a b c show ?thesis by blast
qed


theorem child_killed_in_finally_witness:
  "chatRequestSchema_ok hello_request
   \<and> spawn_throws (plain_env\<lparr>child_output := failing_child\<rparr>) = None
   \<and> stdin_error (plain_env\<lparr>child_output := failing_child\<rparr>) = None
   \<and> write_error (plain_env\<lparr>child_output := failing_child\<rparr>) = None
   \<and> ended_after (plain_env\<lparr>child_output := failing_child\<rparr>) = None
   \<and> filter is_kill
        (handleStreamChat_job JSON_parse (plain_env\<lparr>child_output := failing_child\<rparr>) hello_request)
       = [KillChild SIGTERM]
   \<and> take 2 (rev
        (handleStreamChat_job JSON_parse (plain_env\<lparr>child_output := failing_child\<rparr>) hello_request))
       = [KillChild SIGTERM, EndResponse]"
proof -
  let ?env = "plain_env\<lparr>child_output := failing_child\<rparr>"
  have a: "chatRequestSchema_ok hello_request" by code_simp
  have b: "spawn_throws ?env = None" "stdin_error ?env = None"
    "write_error ?env = None" "ended_after ?env = None"
    by (simp_all add: plain_env_def)
  from child_killed_in_finally [OF a b(1,2), of JSON_parse] b(3,4) a b(1,2)
  show ?thesis by blast
qed

text \<open>
  C7 as the claim states it fails. On the normal path the handler ends the response
  inside the \<open>try\<close> and kills the child in the \<open>finally\<close> after it, and the one signal it
  ever sends is SIGTERM.
\<close>

theorem response_ends_before_kill:
  "handleStreamChat_job JSON_parse plain_env hello_request =
     [Spawn ''/work'' base_args, StdinWrite (''hello'' @ LF), StdinEnd, SetSSEHeaders,
      Write (SSE_start ''new''),
      Write (SSE_data (JObject [(''type'', JString ''unknown''), (''x'', JNumber 1)])),
      Write (SSE_data (JString ''plain text'')),
      Write (SSE_end ''new''),
      EndResponse, KillChild SIGTERM]
   \<and> KillChild SIGKILL \<notin> set (handleStreamChat_job JSON_parse plain_env hello_request)"
  by code_simp

lemma forward_empty_child:
  assumes "write_error env = None" "ended_after env = None"
  shows "forward env n (SuspendedStart [] sid) = ([Write (SSE_start sid), Write (SSE_end sid)], None)"
proof -
  have w: "write_throws env k = None" "\<not> writableEnded env k" for k
    using assms by (simp_all add: write_throws_def writableEnded_def)
  have 3: "forward env k InFinally = ([], None)" for k
    by (simp add: forward.simps [of env k InFinally])
  have 2: "forward env k (AtYieldStart [] sid) = ([Write (SSE_end sid)], None)" for k
    using w 3 by (simp add: forward.simps [of env k "AtYieldStart [] sid"])
  show ?thesis
    using w 2 by (simp add: forward.simps [of env n "SuspendedStart [] sid"])
qed

text \<open>
  C8 (as amended). When \<open>spawn\<close> itself throws, and when writing the prompt to standard
  input throws, the request is answered 500 before any streaming; after a failed write
  the child is killed first. A child that produces no standard output (as the shell does
  when the command is not found) gives the stream start, end and no error.
\<close>

theorem launch_failures:
  assumes "chatRequestSchema_ok body"
  shows "(spawn_throws env = Some m \<longrightarrow>
            (\<exists>cwd args. handleStreamChat_job parse env body
               = [Spawn cwd args, LogError (SpawnThrew m), Reply 500]))
       \<and> (spawn_throws env = None \<and> stdin_error env = Some m \<longrightarrow>
            (\<exists>cwd args. handleStreamChat_job parse env body
               = [Spawn cwd args, KillChild SIGTERM, LogError (StdinWriteFailed m), Reply 500]))
       \<and> (spawn_throws env = None \<and> stdin_error env = None
            \<and> stdout (child_output env) = [] \<and> stdout_error (child_output env) = None
            \<and> write_error env = None \<and> ended_after env = None \<longrightarrow>
            (\<exists>cwd args p sid. handleStreamChat_job parse env body
               = [Spawn cwd args, StdinWrite p, StdinEnd, SetSSEHeaders,
                  Write (SSE_start sid), Write (SSE_end sid), EndResponse, KillChild SIGTERM]))"
proof (intro conjI impI)
  assume "spawn_throws env = Some m"
  then show "\<exists>cwd args. handleStreamChat_job parse env body
               = [Spawn cwd args, LogError (SpawnThrew m), Reply 500]"
    using assms by (simp add: handleStreamChat_job_def spawnClaudeProcess_def Let_def)
next
  assume "spawn_throws env = None \<and> stdin_error env = Some m"
  then show "\<exists>cwd args. handleStreamChat_job parse env body
               = [Spawn cwd args, KillChild SIGTERM, LogError (StdinWriteFailed m), Reply 500]"
    using assms by (simp add: handleStreamChat_job_def spawnClaudeProcess_def Let_def)
next
  assume a: "spawn_throws env = None \<and> stdin_error env = None
            \<and> stdout (child_output env) = [] \<and> stdout_error (child_output env) = None
            \<and> write_error env = None \<and> ended_after env = None"
  then have "streamClaudeOutput parse (child_output env) sid = SuspendedStart [] sid" for sid
    by (simp add: streamClaudeOutput_def try_block_def)
  then have "stream_to_client parse env session
      = [Write (SSE_start (case session of Some s \<Rightarrow> s | None \<Rightarrow> ''new'')),
         Write (SSE_end (case session of Some s \<Rightarrow> s | None \<Rightarrow> ''new'')),
         EndResponse, KillChild SIGTERM]" for session
    using a forward_empty_child [of env]
    by (simp add: stream_to_client_def killClaudeProcess_def writableEnded_def)
  moreover from a have "spawn_throws env = None" "stdin_error env = None" by simp_all
  from job_launched [OF assms this, of parse] obtain cwd args p where
    "handleStreamChat_job parse env body =
       [Spawn cwd args, StdinWrite p, StdinEnd, SetSSEHeaders]
       @ stream_to_client parse env (session_of body)"
    by blast
  ultimately show "\<exists>cwd args p sid. handleStreamChat_job parse env body
               = [Spawn cwd args, StdinWrite p, StdinEnd, SetSSEHeaders,
                  Write (SSE_start sid), Write (SSE_end sid), EndResponse, KillChild SIGTERM]"
    by simp
qed

theorem launch_failures_witness:
  "chatRequestSchema_ok hello_request
   \<and> spawn_throws (plain_env\<lparr>spawn_throws := Some ''EINVAL''\<rparr>) = Some ''EINVAL''
   \<and> (\<exists>cwd args.
         handleStreamChat_job JSON_parse (plain_env\<lparr>spawn_throws := Some ''EINVAL''\<rparr>) hello_request
           = [Spawn cwd args, LogError (SpawnThrew ''EINVAL''), Reply 500])
   \<and> stdin_error (plain_env\<lparr>stdin_error := Some ''EPIPE''\<rparr>) = Some ''EPIPE''
   \<and> (\<exists>cwd args.
         handleStreamChat_job JSON_parse (plain_env\<lparr>stdin_error := Some ''EPIPE''\<rparr>) hello_request
           = [Spawn cwd args, KillChild SIGTERM, LogError (StdinWriteFailed ''EPIPE''), Reply 500])
   \<and> stdout (child_output (plain_env\<lparr>child_output := stderr_only_child\<rparr>)) = []
   \<and> (\<exists>cwd args p sid.
         handleStreamChat_job JSON_parse (plain_env\<lparr>child_output := stderr_only_child\<rparr>) hello_request
           = [Spawn cwd args, StdinWrite p, StdinEnd, SetSSEHeaders,
              Write (SSE_start sid), Write (SSE_end sid), EndResponse, KillChild SIGTERM])"
proof -
  have ok: "chatRequestSchema_ok hello_request" by code_simp
  let ?e1 = "plain_env\<lparr>spawn_throws := Some ''EINVAL''\<rparr>"
  let ?e2 = "plain_env\<lparr>stdin_error := Some ''EPIPE''\<rparr>"
  let ?e3 = "plain_env\<lparr>child_output := stderr_only_child\<rparr>"
  have h1: "spawn_throws ?e1 = Some ''EINVAL''" by simp
  have h2: "spawn_throws ?e2 = None \<and> stdin_error ?e2 = Some ''EPIPE''"
    by (simp add: plain_env_def)
  have h3: "spawn_throws ?e3 = None \<and> stdin_error ?e3 = None
            \<and> stdout (child_output ?e3) = [] \<and> stdout_error (child_output ?e3) = None
            \<and> write_error ?e3 = None \<and> ended_after ?e3 = None"
    by (simp add: plain_env_def stderr_only_child_def)
  note t1 = launch_failures [OF ok, of ?e1 "''EINVAL''" JSON_parse]
  note t2 = launch_failures [OF ok, of ?e2 "''EPIPE''" JSON_parse]
  note t3 = launch_failures [OF ok, of ?e3 "''x''" JSON_parse]
  from t1 h1 have c1: "\<exists>cwd args.
         handleStreamChat_job JSON_parse ?e1 hello_request
           = [Spawn cwd args, LogError (SpawnThrew ''EINVAL''), Reply 500]" by blast
  from t2 h2 have c2: "\<exists>cwd args.
         handleStreamChat_job JSON_parse ?e2 hello_request
           = [Spawn cwd args, KillChild SIGTERM, LogError (StdinWriteFailed ''EPIPE''), Reply 500]"
    by blast
  from t3 h3 have c3: "\<exists>cwd args p sid.
         handleStreamChat_job JSON_parse ?e3 hello_request
           = [Spawn cwd args, StdinWrite p, StdinEnd, SetSSEHeaders,
              Write (SSE_start sid), Write (SSE_end sid), EndResponse, KillChild SIGTERM]"
    by blast
  from ok h1 h2 h3 c1 c2 c3 show ?thesis by blast
qed

text \<open>
  C8 as the claim states it fails. The command is not found: the shell that \<open>spawn\<close>
  started says so on standard error and exits. The request is answered with the stream
  start, end; no server error is reported, before or after streaming begins.
\<close>

theorem command_not_found_streams:
  "handleStreamChat_job JSON_parse (plain_env\<lparr>child_output := stderr_only_child\<rparr>) hello_request =
     [Spawn ''/work'' base_args, StdinWrite (''hello'' @ LF), StdinEnd, SetSSEHeaders,
      Write (SSE_start ''new''), Write (SSE_end ''new''), EndResponse, KillChild SIGTERM]
   \<and> Reply 500 \<notin> set
        (handleStreamChat_job JSON_parse (plain_env\<lparr>child_output := stderr_only_child\<rparr>) hello_request)"
  by code_simp

text \<open>
  C9 (as amended). A request whose body fails validation is answered 400 as soon as the
  limiter starts its job, and on no path, admitted or rejected while waiting, is a child
  process spawned for it.
\<close>

theorem invalid_request_rejected:
  assumes "\<not> chatRequestSchema_ok body"
  shows "handleStreamChat parse env body Admitted = [Reply 400]
       \<and> list_all (\<lambda>e. \<not> is_spawn e) (handleStreamChat parse env body adm)"
  using assms
  by (cases adm)
     (simp_all add: handleStreamChat_def handleStreamChat_job_def errorHandler_def Let_def)

theorem invalid_request_rejected_witness:
  "\<not> chatRequestSchema_ok empty_prompt_request
   \<and> handleStreamChat JSON_parse plain_env empty_prompt_request Admitted = [Reply 400]
   \<and> list_all (\<lambda>e. \<not> is_spawn e)
        (handleStreamChat JSON_parse plain_env empty_prompt_request
           (RejectedWhileQueued ShutdownError))"
proof -
  have a: "\<not> chatRequestSchema_ok empty_prompt_request" by code_simp
  from invalid_request_rejected [OF a, of JSON_parse plain_env "RejectedWhileQueued ShutdownError"] a
  show ?thesis by blast
qed

text \<open>
  C9 as the claim states it fails. The validation runs inside the job given to the
  limiter. With the five slots of the server's limiter taken, the call of a request with
  an empty prompt (the sixth call) waits in the queue; when its timer fires before a slot
  is free, the promise of \<open>run\<close> is rejected, the job never runs and the request is
  answered 500, not 400.
\<close>

theorem invalid_request_times_out_in_queue:
  "\<not> chatRequestSchema_ok empty_prompt_request
   \<and> map_option (queue_and_admission 5)
         (run_events [Run None 0, Run None 1, Run None 2, Run None 3, Run None 4, Run None 5]
            globalLimiter)
       = Some ([5], None)
   \<and> map_option (queue_and_admission 5)
         (run_events [Run None 0, Run None 1, Run None 2, Run None 3, Run None 4, Run None 5,
                      TimerFires 5] globalLimiter)
       = Some ([], Some (RejectedWhileQueued (TimeoutError 120000)))
   \<and> handleStreamChat JSON_parse plain_env empty_prompt_request
         (RejectedWhileQueued (TimeoutError 120000)) = [Reply 500]"
  by code_simp

end
